theory Spec2Isabelle
  imports Complex_Main "HOL-Library.Log_Nat"
begin

section \<open>Python values used by Trading\_Bot.py\<close>

subsection \<open>Exceptions\<close>

text \<open>
  The exceptions that the modelled code can raise or receive.  Python separates the
  classes derived from \<^verbatim>\<open>Exception\<close> from those derived from
  \<^verbatim>\<open>BaseException\<close> only (\<^verbatim>\<open>asyncio.CancelledError\<close> since Python 3.8,
  \<^verbatim>\<open>KeyboardInterrupt\<close>, \<^verbatim>\<open>SystemExit\<close>); a clause
  \<^verbatim>\<open>except Exception\<close> catches the former only.
\<close>

datatype exn =
    ZeroDivisionError
  | ConnectionError
  | AttributeError
  | NameError
  | TypeError
  | FieldNotFound
  | OtherException string
  | CancelledError
  | KeyboardInterrupt
  | SystemExit

fun is_Exception :: "exn \<Rightarrow> bool" where
  "is_Exception CancelledError = False"
| "is_Exception KeyboardInterrupt = False"
| "is_Exception SystemExit = False"
| "is_Exception _ = True"

subsection \<open>Floats: IEEE 754 binary64, round to nearest, ties to even\<close>

text \<open>
  A Python \<^verbatim>\<open>float\<close> is a binary64 number.  Finite values are modelled by the
  rational they denote (the two zeros are identified: the only operation of the modelled
  code that could tell them apart is a division by zero, which raises for both), together
  with the two infinities and NaN.  Every arithmetic operation computes the exact
  rational result and rounds it with \<open>round_double\<close>.
\<close>

datatype pyfloat = Finite rat | PInf | NInf | NaN

definition pow2 :: "int \<Rightarrow> rat" where
  "pow2 e = (if 0 \<le> e then 2 ^ nat e else 1 / 2 ^ nat (- e))"

text \<open>\<open>ilog2 x\<close> is \<open>\<lfloor>log\<^sub>2 x\<rfloor>\<close> for a positive rational \<open>x\<close>.\<close>

definition ilog2 :: "rat \<Rightarrow> int" where
  "ilog2 x = (case quotient_of x of (n, d) \<Rightarrow>
     (let k = bitlen n - bitlen d in if pow2 k \<le> x then k else k - 1))"

definition round_half_even :: "rat \<Rightarrow> int" where
  "round_half_even y =
     (let f = \<lfloor>y\<rfloor>; d = y - of_int f
      in if d < 1 / 2 then f else if 1 / 2 < d then f + 1 else if even f then f else f + 1)"

text \<open>
  The spacing of the binary64 numbers around \<open>x\<close>: 53 significant bits in the binade
  of \<open>x\<close>, and \<open>2\<^sup>-\<^sup>1\<^sup>0\<^sup>7\<^sup>4\<close> in the subnormal range.
\<close>

definition ulp :: "rat \<Rightarrow> rat" where
  "ulp x = pow2 (max (ilog2 \<bar>x\<bar>) (- 1022) - 52)"

definition round_double :: "rat \<Rightarrow> pyfloat" where
  "round_double x =
     (if x = 0 then Finite 0
      else let q = ulp x; r = of_int (round_half_even (x / q)) * q
           in if pow2 1024 \<le> r then PInf else if r \<le> - pow2 1024 then NInf else Finite r)"

text \<open>\<open>is_double x\<close>: the rational \<open>x\<close> is a binary64 number, so that no rounding occurs.\<close>

definition is_double :: "rat \<Rightarrow> bool" where
  "is_double x \<longleftrightarrow>
     x = 0 \<or> (\<bar>x\<bar> < pow2 1024 \<and> of_int \<lfloor>x / ulp x\<rfloor> = x / ulp x)"

fun f_add :: "pyfloat \<Rightarrow> pyfloat \<Rightarrow> pyfloat" where
  "f_add NaN _ = NaN"
| "f_add _ NaN = NaN"
| "f_add PInf NInf = NaN"
| "f_add NInf PInf = NaN"
| "f_add PInf _ = PInf"
| "f_add _ PInf = PInf"
| "f_add NInf _ = NInf"
| "f_add _ NInf = NInf"
| "f_add (Finite x) (Finite y) = round_double (x + y)"

fun f_neg :: "pyfloat \<Rightarrow> pyfloat" where
  "f_neg NaN = NaN"
| "f_neg PInf = NInf"
| "f_neg NInf = PInf"
| "f_neg (Finite x) = Finite (- x)"

definition f_sub :: "pyfloat \<Rightarrow> pyfloat \<Rightarrow> pyfloat" where
  "f_sub a b = f_add a (f_neg b)"

text \<open>The sign of a float: \<open>None\<close> for NaN.\<close>

fun f_sgn :: "pyfloat \<Rightarrow> int option" where
  "f_sgn NaN = None"
| "f_sgn PInf = Some 1"
| "f_sgn NInf = Some (- 1)"
| "f_sgn (Finite x) = Some (if x = 0 then 0 else if 0 < x then 1 else - 1)"

definition inf_of_sign :: "int \<Rightarrow> pyfloat" where
  "inf_of_sign s = (if s = 0 then NaN else if 0 < s then PInf else NInf)"

fun f_mul :: "pyfloat \<Rightarrow> pyfloat \<Rightarrow> pyfloat" where
  "f_mul (Finite x) (Finite y) = round_double (x * y)"
| "f_mul a b =
     (case (f_sgn a, f_sgn b) of
        (Some s, Some t) \<Rightarrow> inf_of_sign (s * t)
      | _ \<Rightarrow> NaN)"

text \<open>
  Python's \<^verbatim>\<open>/\<close> on floats raises \<^verbatim>\<open>ZeroDivisionError\<close> whenever the divisor is
  zero, whatever the dividend; otherwise it is the IEEE division.
\<close>

fun f_div :: "pyfloat \<Rightarrow> pyfloat \<Rightarrow> exn + pyfloat" where
  "f_div a (Finite y) =
     (if y = 0 then Inl ZeroDivisionError
      else case a of
             Finite x \<Rightarrow> Inr (round_double (x / y))
           | PInf \<Rightarrow> Inr (if 0 < y then PInf else NInf)
           | NInf \<Rightarrow> Inr (if 0 < y then NInf else PInf)
           | NaN \<Rightarrow> Inr NaN)"
| "f_div (Finite x) PInf = Inr (Finite 0)"
| "f_div (Finite x) NInf = Inr (Finite 0)"
| "f_div a b = Inr NaN"

text \<open>Python's \<^verbatim>\<open>a > b\<close> and \<^verbatim>\<open>a <= b\<close> on floats: false whenever one side is NaN.\<close>

fun f_gt :: "pyfloat \<Rightarrow> pyfloat \<Rightarrow> bool" where
  "f_gt NaN _ = False"
| "f_gt _ NaN = False"
| "f_gt (Finite x) (Finite y) = (y < x)"
| "f_gt PInf PInf = False"
| "f_gt PInf _ = True"
| "f_gt _ PInf = False"
| "f_gt NInf _ = False"
| "f_gt _ NInf = True"

fun f_le :: "pyfloat \<Rightarrow> pyfloat \<Rightarrow> bool" where
  "f_le NaN _ = False"
| "f_le _ NaN = False"
| "f_le (Finite x) (Finite y) = (x \<le> y)"
| "f_le NInf _ = True"
| "f_le _ PInf = True"
| "f_le PInf _ = False"
| "f_le _ NInf = False"

text \<open>
  The builtin \<^verbatim>\<open>max(a, b)\<close> keeps its first argument unless the second compares
  greater.
\<close>

definition py_max :: "pyfloat \<Rightarrow> pyfloat \<Rightarrow> pyfloat" where
  "py_max a b = (if f_gt b a then b else a)"

text \<open>A decimal float literal denotes the binary64 number nearest to it.\<close>

definition lit_0_01 :: pyfloat where
  "lit_0_01 = round_double (1 / 100)"

section \<open>Risk management: class AdaptiveKelly\<close>

definition RISK_PROFILES :: "(string \<times> pyfloat) list" where
  "RISK_PROFILES =
     [(''conservative'', Finite (1 / 4)),
      (''moderate'', Finite (1 / 2)),
      (''aggressive'', Finite 1)]"

record AdaptiveKelly =
  multiplier :: pyfloat

text \<open>\<^verbatim>\<open>self.multiplier = self.RISK_PROFILES.get(profile, 0.5)\<close>\<close>

definition AdaptiveKelly_init :: "string \<Rightarrow> AdaptiveKelly" where
  "AdaptiveKelly_init profile =
     \<lparr>multiplier = (case map_of RISK_PROFILES profile of Some m \<Rightarrow> m | None \<Rightarrow> Finite (1 / 2))\<rparr>"

text \<open>
  \<^verbatim>\<open>raw_kelly = (win_prob * (win_loss_ratio + 1) - 1) / win_loss_ratio\<close>, on two
  floats as the signature annotates them; the integer literal \<open>1\<close> is converted to the
  float \<open>1.0\<close> by both operators.
\<close>

definition raw_kelly :: "pyfloat \<Rightarrow> pyfloat \<Rightarrow> exn + pyfloat" where
  "raw_kelly win_prob win_loss_ratio =
     f_div (f_sub (f_mul win_prob (f_add win_loss_ratio (Finite 1))) (Finite 1)) win_loss_ratio"

text \<open>\<^verbatim>\<open>return max(0.01, raw_kelly * self.multiplier)\<close>\<close>

definition calculate :: "'a AdaptiveKelly_scheme \<Rightarrow> pyfloat \<Rightarrow> pyfloat \<Rightarrow> exn + pyfloat" where
  "calculate self win_prob win_loss_ratio =
     (case raw_kelly win_prob win_loss_ratio of
        Inl e \<Rightarrow> Inl e
      | Inr raw \<Rightarrow> Inr (py_max lit_0_01 (f_mul raw (multiplier self))))"

subsection \<open>The sizing formula of the specification, in exact arithmetic\<close>

text \<open>
  For comparison with the code, the Kelly fraction as the specification writes it
  (section 4.1: \<open>f = (p*(b+1) - 1) / b\<close>), over the rationals, without rounding.
\<close>

definition spec_kelly_fraction :: "rat \<Rightarrow> rat \<Rightarrow> rat" where
  "spec_kelly_fraction p b = (p * (b + 1) - 1) / b"

text \<open>
  \<open>exact_ops p b m\<close>: none of the five float operations of \<^verbatim>\<open>calculate\<close> rounds
  on the inputs \<open>p\<close>, \<open>b\<close> and the multiplier \<open>m\<close>, because every exact intermediate
  result is itself a binary64 number.
\<close>

definition exact_ops :: "rat \<Rightarrow> rat \<Rightarrow> rat \<Rightarrow> bool" where
  "exact_ops p b m \<longleftrightarrow>
     is_double (b + 1) \<and>
     is_double (p * (b + 1)) \<and>
     is_double (p * (b + 1) - 1) \<and>
     is_double (spec_kelly_fraction p b) \<and>
     is_double (spec_kelly_fraction p b * m)"

section \<open>FIX protocol handler: FIXEngine.toAdmin\<close>

text \<open>
  A FIX message has a header and a body, each a map from tag numbers to field values.
  \<^verbatim>\<open>message.getHeader().getField(35)\<close> reads the header and raises
  \<^verbatim>\<open>FieldNotFound\<close> when the tag is absent; \<^verbatim>\<open>message.setField(tag, value)\<close> writes
  the body and accepts a string only.
\<close>

record message =
  header :: "nat \<Rightarrow> string option"
  body :: "nat \<Rightarrow> string option"

datatype pyval = PyNone | PyStr string

definition getField :: "(nat \<Rightarrow> string option) \<Rightarrow> nat \<Rightarrow> exn + string" where
  "getField fmap tag = (case fmap tag of None \<Rightarrow> Inl FieldNotFound | Some v \<Rightarrow> Inr v)"

definition setField :: "nat \<Rightarrow> pyval \<Rightarrow> message \<Rightarrow> exn + message" where
  "setField tag v msg =
     (case v of
        PyStr s \<Rightarrow> Inr (msg\<lparr>body := (body msg)(tag \<mapsto> s)\<rparr>)
      | PyNone \<Rightarrow> Inl TypeError)"

text \<open>
  The names bound in the module namespace of Trading\_Bot.py: by its import statements
  (of the two star imports, the \<^verbatim>\<open>quickfix\<close> classes the file uses) and by its class
  definitions.  The file has no \<^verbatim>\<open>import os\<close>.  Evaluating a name that is not bound
  raises \<^verbatim>\<open>NameError\<close>.
\<close>

definition module_names :: "string list" where
  "module_names =
     [''np'', ''pd'', ''asyncio'', ''aiohttp'', ''ccxtpro'', ''rh'', ''CashAppAPI'', ''mt5'',
      ''Application'', ''SessionSettings'', ''FileStoreFactory'', ''FileLogFactory'',
      ''SocketInitiator'', ''quantumrandom'', ''Cipher'', ''algorithms'', ''modes'',
      ''datetime'', ''timedelta'', ''EntropyHarvester'', ''FIXEngine'', ''MT5Bridge'',
      ''AdaptiveKelly'', ''QuantumTradingSystem'']"

definition name_lookup :: "string list \<Rightarrow> string \<Rightarrow> exn + string" where
  "name_lookup names name = (if name \<in> set names then Inr name else Inl NameError)"

text \<open>
  The attributes an instance of \<^verbatim>\<open>FIXEngine\<close> gets from the file: the five methods
  of the class body and the attribute assigned by \<^verbatim>\<open>__init__\<close>.  The class body
  defines no \<^verbatim>\<open>_encrypt\<close>; looking it up raises \<^verbatim>\<open>AttributeError\<close>.
\<close>

definition FIXEngine_attrs :: "string list" where
  "FIXEngine_attrs =
     [''__init__'', ''onCreate'', ''onLogon'', ''onLogout'', ''toAdmin'', ''initiator'']"

definition FIXEngine_getattr :: "string \<Rightarrow> exn + string" where
  "FIXEngine_getattr name =
     (if name \<in> set FIXEngine_attrs then Inr name else Inl AttributeError)"

text \<open>
  What \<^verbatim>\<open>os.getenv\<close> and \<^verbatim>\<open>self._encrypt\<close> would do if the two lookups succeeded:
  the process environment and the encryption are outside the file.
\<close>

record fix_env =
  os_getenv :: "string \<Rightarrow> exn + pyval"
  self_encrypt :: "pyval \<Rightarrow> exn + pyval"

text \<open>
  The handler mutates the message in place: the model returns the exception raised, if
  any, and the message as it is when the handler ends.  Python evaluates each call left
  to right: in the first statement the name \<^verbatim>\<open>os\<close>, then \<^verbatim>\<open>os.getenv\<close>, then
  \<^verbatim>\<open>setField\<close>; in the second the attribute \<^verbatim>\<open>self._encrypt\<close>, then the name
  \<^verbatim>\<open>os\<close>, then \<^verbatim>\<open>os.getenv\<close>, then the two calls.  \<open>toAdmin_in names\<close> is the
  handler run with the module namespace \<open>names\<close>, and \<open>toAdmin\<close> is the handler in
  the namespace of the file.
\<close>

definition toAdmin_in :: "string list \<Rightarrow> fix_env \<Rightarrow> message \<Rightarrow> exn option \<times> message" where
  "toAdmin_in names env msg =
     (case getField (header msg) 35 of
        Inl e \<Rightarrow> (Some e, msg)
      | Inr t \<Rightarrow>
          if t = ''A'' then
            (case name_lookup names ''os'' of
               Inl e \<Rightarrow> (Some e, msg)
             | Inr os \<Rightarrow>
            (case os_getenv env ''FIX_USERNAME'' of
               Inl e \<Rightarrow> (Some e, msg)
             | Inr user \<Rightarrow>
            (case setField 553 user msg of
               Inl e \<Rightarrow> (Some e, msg)
             | Inr msg1 \<Rightarrow>
            (case FIXEngine_getattr ''_encrypt'' of
               Inl e \<Rightarrow> (Some e, msg1)
             | Inr encrypt \<Rightarrow>
            (case name_lookup names ''os'' of
               Inl e \<Rightarrow> (Some e, msg1)
             | Inr os \<Rightarrow>
            (case os_getenv env ''FIX_PASSWORD'' of
               Inl e \<Rightarrow> (Some e, msg1)
             | Inr pw \<Rightarrow>
            (case self_encrypt env pw of
               Inl e \<Rightarrow> (Some e, msg1)
             | Inr c \<Rightarrow>
            (case setField 554 c msg1 of
               Inl e \<Rightarrow> (Some e, msg1)
             | Inr msg2 \<Rightarrow> (None, msg2)))))))))
          else (None, msg))"

definition toAdmin :: "fix_env \<Rightarrow> message \<Rightarrow> exn option \<times> message" where
  "toAdmin env msg = toAdmin_in module_names env msg"

section \<open>MetaTrader bridge: MT5Bridge.\_\_init\_\_\<close>

text \<open>
  The bridge object has no attribute.  The parameter is the truth value returned by
  \<^verbatim>\<open>mt5.initialize()\<close>.
\<close>

datatype MT5Bridge = MT5Bridge

definition MT5Bridge_init :: "bool \<Rightarrow> exn + MT5Bridge" where
  "MT5Bridge_init initialized =
     (if \<not> initialized then Inl ConnectionError else Inr MT5Bridge)"

section \<open>MetaTrader bridge: MT5Bridge.execute\<close>






section \<open>Main loop: QuantumTradingSystem.run\<close>

text \<open>
  The attributes an instance of \<^verbatim>\<open>QuantumTradingSystem\<close> has: the two methods of the
  class body and the four attributes assigned by \<^verbatim>\<open>__init__\<close>.  Looking up any other
  name raises \<^verbatim>\<open>AttributeError\<close>.
\<close>

definition QuantumTradingSystem_attrs :: "string list" where
  "QuantumTradingSystem_attrs =
     [''__init__'', ''run'', ''entropy'', ''fix'', ''mt5'', ''risk'']"

definition QuantumTradingSystem_getattr :: "string \<Rightarrow> exn + string" where
  "QuantumTradingSystem_getattr name =
     (if name \<in> set QuantumTradingSystem_attrs then Inr name else Inl AttributeError)"

text \<open>The effects of \<^verbatim>\<open>run\<close>, in the order they happen.\<close>

datatype event = TaskCreated | InitiatorStarted | Slept | EmergencyShutdown exn

text \<open>
  \<open>try_body i\<close> is the outcome of the \<open>i\<close>-th execution of the \<^verbatim>\<open>try\<close> block (the
  placeholder for the trading logic and \<^verbatim>\<open>await asyncio.sleep(0.1)\<close>): \<open>None\<close> when
  it completes, \<open>Some e\<close> when it raises \<open>e\<close>.  The two calls before the loop,
  \<^verbatim>\<open>asyncio.create_task\<close> and \<^verbatim>\<open>initiator.start\<close>, are taken to return.  The loop
  has no exit: \<^verbatim>\<open>run\<close> either
  never returns (\<open>None\<close>) or ends with an exception, paired here with the effects
  performed so far.
\<close>

partial_function (option) run_loop ::
  "(nat \<Rightarrow> exn option) \<Rightarrow> nat \<Rightarrow> event list \<Rightarrow> (exn \<times> event list) option" where
  "run_loop try_body i trace =
     (case try_body i of
        None \<Rightarrow> run_loop try_body (Suc i) (trace @ [Slept])
      | Some e \<Rightarrow>
          if is_Exception e then
            (case QuantumTradingSystem_getattr ''_emergency_shutdown'' of
               Inl err \<Rightarrow> Some (err, trace)
             | Inr m \<Rightarrow> run_loop try_body (Suc i) (trace @ [EmergencyShutdown e]))
          else Some (e, trace))"

definition run :: "(nat \<Rightarrow> exn option) \<Rightarrow> (exn \<times> event list) option" where
  "run try_body = run_loop try_body 0 [TaskCreated, InitiatorStarted]"

section \<open>Example inputs\<close>

text \<open>
  An environment with a user name and a password and an encryption that reverses its
  argument, a logon message and a heartbeat message.
\<close>

definition example_env :: fix_env where
  "example_env =
     \<lparr>os_getenv = (\<lambda>name.
         if name = ''FIX_USERNAME'' then Inr (PyStr ''alice'')
         else if name = ''FIX_PASSWORD'' then Inr (PyStr ''secret'')
         else Inr PyNone),
      self_encrypt = (\<lambda>v. case v of PyStr s \<Rightarrow> Inr (PyStr (rev s)) | PyNone \<Rightarrow> Inl TypeError)\<rparr>"

definition logon_msg :: message where
  "logon_msg = \<lparr>header = [35 \<mapsto> ''A''], body = Map.empty\<rparr>"

definition heartbeat_msg :: message where
  "heartbeat_msg = \<lparr>header = [35 \<mapsto> ''0''], body = [112 \<mapsto> ''ping'']\<rparr>"


section \<open>Properties of the float model\<close>

subsection \<open>Powers of two and the binary logarithm\<close>

lemma pow2_powi: "pow2 e = 2 powi e"
  by (simp add: pow2_def power_int_def inverse_eq_divide power_one_over)

lemma pow2_pos: "0 < pow2 e"
  by (simp add: pow2_powi)

lemma pow2_diff: "pow2 (a - b) = pow2 a / pow2 b"
  by (simp add: pow2_powi power_int_diff)

lemma pow2_mono: "a \<le> b \<Longrightarrow> pow2 a \<le> pow2 b"
  by (simp add: pow2_powi power_int_increasing)

lemma pow2_nat: "0 \<le> e \<Longrightarrow> pow2 e = of_int (2 ^ nat e)"
  by (simp add: pow2_def)

lemma bitlen_rat_bounds:
  assumes "0 < n"
  shows "pow2 (bitlen n - 1) \<le> of_int n" and "of_int n < pow2 (bitlen n)"
proof -
  from assms have b: "1 \<le> bitlen n"
    using bitlen_eq_zero_iff [of n] bitlen_nonneg [of n] by linarith
  from bitlen_bounds [OF assms]
  have lo: "2 ^ nat (bitlen n - 1) \<le> n" and hi: "n < 2 ^ nat (bitlen n)" by simp_all
  have "pow2 (bitlen n - 1) = of_int (2 ^ nat (bitlen n - 1))"
    using b by (simp add: pow2_nat)
  also have "\<dots> \<le> of_int n" using lo by (simp only: of_int_le_iff)
  finally show "pow2 (bitlen n - 1) \<le> of_int n" .
  have "(of_int n :: rat) < of_int (2 ^ nat (bitlen n))" using hi by (simp only: of_int_less_iff)
  also have "\<dots> = pow2 (bitlen n)" using b by (simp add: pow2_nat)
  finally show "of_int n < pow2 (bitlen n)" .
qed

lemma ilog2_bounds:
  assumes "0 < x"
  shows "pow2 (ilog2 x) \<le> x \<and> x < pow2 (ilog2 x + 1)"
proof -
  obtain n d where q: "quotient_of x = (n, d)" by (cases "quotient_of x")
  from quotient_of_denom_pos [OF q] have d: "0 < d" .
  from quotient_of_div [OF q] have x: "x = of_int n / of_int d" .
  from assms x d have n: "0 < n" by (simp add: zero_less_divide_iff)
  define k where "k = bitlen n - bitlen d"
  note nb = bitlen_rat_bounds [OF n] and db = bitlen_rat_bounds [OF d]
  have dpos: "(0::rat) < of_int d" using d by simp
  have "x < pow2 (bitlen n) / pow2 (bitlen d - 1)"
    unfolding x using nb db n pow2_pos [of "bitlen d - 1"]
    by (intro frac_less) simp_all
  also have "\<dots> = pow2 (k + 1)"
    by (simp add: k_def pow2_diff [symmetric] algebra_simps)
  finally have hi: "x < pow2 (k + 1)" .
  have "pow2 (k - 1) = pow2 (bitlen n - 1) / pow2 (bitlen d)"
    by (simp add: k_def pow2_diff [symmetric] algebra_simps)
  also have "\<dots> \<le> x"
    unfolding x using nb db dpos pow2_pos [of "bitlen n - 1"]
    by (intro frac_le) simp_all
  finally have lo: "pow2 (k - 1) \<le> x" .
  have il: "ilog2 x = (if pow2 k \<le> x then k else k - 1)"
    by (simp add: ilog2_def q k_def Let_def)
  show ?thesis
  proof (cases "pow2 k \<le> x")
    case True
    with hi il show ?thesis by simp
  next
    case False
    with lo il show ?thesis by simp
  qed
qed

lemma ilog2_eqI:
  assumes "pow2 e \<le> x" and "x < pow2 (e + 1)"
  shows "ilog2 x = e"
proof -
  from assms(1) pow2_pos [of e] have "0 < x" by linarith
  from ilog2_bounds [OF this] have b: "pow2 (ilog2 x) \<le> x" "x < pow2 (ilog2 x + 1)" by simp_all
  have "\<not> e < ilog2 x"
  proof
    assume "e < ilog2 x"
    then have "pow2 (e + 1) \<le> pow2 (ilog2 x)" by (intro pow2_mono) simp
    with b(1) assms(2) show False by linarith
  qed
  moreover have "\<not> ilog2 x < e"
  proof
    assume "ilog2 x < e"
    then have "pow2 (ilog2 x + 1) \<le> pow2 e" by (intro pow2_mono) simp
    with b(2) assms(1) show False by linarith
  qed
  ultimately show ?thesis by simp
qed

lemma ulp_eqI:
  assumes "pow2 e \<le> \<bar>x\<bar>" and "\<bar>x\<bar> < pow2 (e + 1)"
  shows "ulp x = pow2 (max e (- 1022) - 52)"
  by (simp add: ulp_def ilog2_eqI [OF assms])

lemma round_half_even_eqI:
  assumes "\<bar>y - of_int m\<bar> < 1 / 2 \<or> (\<bar>y - of_int m\<bar> = 1 / 2 \<and> even m)"
  shows "round_half_even y = m"
proof (cases "of_int m \<le> y")
  case True
  with assms have f: "\<lfloor>y\<rfloor> = m" by (intro floor_unique) linarith+
  from assms True have "y - of_int m < 1 / 2 \<or> (y - of_int m = 1 / 2 \<and> even m)"
    by linarith
  with f show ?thesis by (auto simp add: round_half_even_def Let_def)
next
  case False
  with assms have f: "\<lfloor>y\<rfloor> = m - 1" by (intro floor_unique) auto
  from assms False
  have "1 / 2 < y - of_int (m - 1) \<or> (y - of_int (m - 1) = 1 / 2 \<and> odd (m - 1))"
    by auto
  with f show ?thesis by (auto simp add: round_half_even_def Let_def)
qed

lemma round_double_eqI:
  assumes "pow2 e \<le> \<bar>x\<bar>" and "\<bar>x\<bar> < pow2 (e + 1)"
    and "q = pow2 (max e (- 1022) - 52)"
    and "\<bar>x / q - of_int m\<bar> < 1 / 2 \<or> (\<bar>x / q - of_int m\<bar> = 1 / 2 \<and> even m)"
    and "r = of_int m * q"
    and "\<bar>r\<bar> < pow2 1024"
  shows "round_double x = Finite r"
proof -
  from assms(1) pow2_pos [of e] have "x \<noteq> 0" by auto
  moreover have "ulp x = q" using ulp_eqI [OF assms(1,2)] assms(3) by simp
  moreover from assms(6) have "\<not> pow2 1024 \<le> r" "\<not> r \<le> - pow2 1024" by linarith+
  ultimately show ?thesis
    using round_half_even_eqI [OF assms(4)] assms(5) by (simp add: round_double_def Let_def)
qed

lemma is_double_eqI:
  assumes "pow2 e \<le> \<bar>x\<bar>" and "\<bar>x\<bar> < pow2 (e + 1)"
    and "q = pow2 (max e (- 1022) - 52)"
    and "x = of_int m * q"
    and "e < 1024"
  shows "is_double x"
proof -
  have u: "ulp x = q" using ulp_eqI [OF assms(1,2)] assms(3) by simp
  have q: "q \<noteq> 0" using pow2_pos [of "max e (- 1022) - 52"] assms(3) by simp
  have "x / q = of_int m" using assms(4) q by simp
  then have i: "of_int \<lfloor>x / ulp x\<rfloor> = x / ulp x" by (simp add: u)
  have "pow2 (e + 1) \<le> pow2 1024" using assms(5) by (intro pow2_mono) simp
  with assms(2) have "\<bar>x\<bar> < pow2 1024" by linarith
  with i show ?thesis unfolding is_double_def by blast
qed

lemma lit_0_01_eq: "lit_0_01 = Finite (5764607523034235 / 576460752303423488)"
  unfolding lit_0_01_def
  by (rule round_double_eqI [where e = "- 7" and m = 5764607523034235 and q = "pow2 (- 59)"])
     (simp_all add: pow2_def)


subsection \<open>Binary64 numbers are fixed points of rounding\<close>

lemma ulp_pos: "0 < ulp x"
  by (simp add: ulp_def pow2_pos)

lemma round_half_even_of_int:
  assumes "of_int \<lfloor>y\<rfloor> = y"
  shows "round_half_even y = \<lfloor>y\<rfloor>"
proof -
  have d: "y - of_int \<lfloor>y\<rfloor> = 0" using assms by linarith
  show ?thesis unfolding round_half_even_def Let_def d by simp
qed

lemma round_double_exact:
  assumes d: "is_double x"
  shows "round_double x = Finite x"
proof (cases "x = 0")
  case True
  then show ?thesis by (simp add: round_double_def)
next
  case False
  from d False have b: "\<bar>x\<bar> < pow2 1024" and i: "of_int \<lfloor>x / ulp x\<rfloor> = x / ulp x"
    unfolding is_double_def by blast+
  have q: "ulp x \<noteq> 0" using ulp_pos [of x] by simp
  have "of_int (round_half_even (x / ulp x)) * ulp x = (x / ulp x) * ulp x"
    by (simp only: round_half_even_of_int [OF i] i)
  also have "\<dots> = x" using q by simp
  finally have r: "of_int (round_half_even (x / ulp x)) * ulp x = x" .
  from b have "\<not> pow2 1024 \<le> x" "\<not> x \<le> - pow2 1024" by linarith+
  with False r show ?thesis by (simp add: round_double_def Let_def)
qed

subsection \<open>Rounding returns a binary64 number nearest to its argument\<close>

lemma round_half_even_error: "\<bar>of_int (round_half_even y) - y\<bar> \<le> 1 / 2"
proof -
  have "of_int \<lfloor>y\<rfloor> \<le> y" and "y < of_int \<lfloor>y\<rfloor> + 1" by linarith+
  then show ?thesis by (auto simp add: round_half_even_def Let_def)
qed

lemma round_double_error:
  assumes "round_double x = Finite r"
  shows "\<bar>r - x\<bar> \<le> ulp x / 2"
proof (cases "x = 0")
  case True
  with assms show ?thesis using ulp_pos [of x] by (simp add: round_double_def)
next
  case False
  let ?m = "round_half_even (x / ulp x)"
  from assms False have r: "r = of_int ?m * ulp x"
    by (simp add: round_double_def Let_def split: if_splits)
  have "r - x = (of_int ?m - x / ulp x) * ulp x"
    using ulp_pos [of x] by (simp add: r left_diff_distrib)
  then have "\<bar>r - x\<bar> = \<bar>of_int ?m - x / ulp x\<bar> * \<bar>ulp x\<bar>"
    by (simp only: abs_mult)
  also have "\<dots> = \<bar>of_int ?m - x / ulp x\<bar> * ulp x"
    using ulp_pos [of x] by simp
  also have "\<dots> \<le> 1 / 2 * ulp x"
    using round_half_even_error [of "x / ulp x"] ulp_pos [of x]
    by (intro mult_right_mono) simp_all
  finally show ?thesis by simp
qed

lemma pow2_add: "pow2 (a + b) = pow2 a * pow2 b"
  by (simp add: pow2_powi power_int_add)

lemma pow2_53_mult: "pow2 53 * pow2 (E - 52) = pow2 (E + 1)"
proof -
  have "pow2 53 * pow2 (E - 52) = pow2 (53 + (E - 52))" by (rule pow2_add [symmetric])
  also have "53 + (E - 52) = E + 1" by simp
  finally show ?thesis .
qed

lemma ilog2_le:
  assumes "0 < y" and "y < pow2 (k + 1)"
  shows "ilog2 y \<le> k"
proof (rule ccontr)
  assume "\<not> ilog2 y \<le> k"
  then have "pow2 (k + 1) \<le> pow2 (ilog2 y)" by (intro pow2_mono) simp
  with ilog2_bounds [OF assms(1)] assms(2) show False by linarith
qed

lemma round_half_even_bound:
  assumes "\<bar>y\<bar> < of_int n"
  shows "\<bar>round_half_even y\<bar> \<le> n"
proof -
  from round_half_even_error [of y] assms
  have "\<bar>rat_of_int (round_half_even y)\<bar> < of_int n + 1" by linarith
  then have "rat_of_int \<bar>round_half_even y\<bar> < rat_of_int (n + 1)" by simp
  then have "\<bar>round_half_even y\<bar> < n + 1" by (simp only: of_int_less_iff)
  then show ?thesis by simp
qed

lemma round_double_is_double:
  assumes "round_double x = Finite r"
  shows "is_double r"
proof (cases "r = 0")
  case True
  then show ?thesis by (simp add: is_double_def)
next
  case False
  with assms have x: "x \<noteq> 0" by (auto simp add: round_double_def)
  define E where "E = max (ilog2 \<bar>x\<bar>) (- 1022)"
  define m where "m = round_half_even (x / pow2 (E - 52))"
  have u: "ulp x = pow2 (E - 52)" by (simp add: ulp_def E_def)
  from assms x have r: "r = of_int m * pow2 (E - 52)" and fin: "\<bar>r\<bar> < pow2 1024"
    by (auto simp add: round_double_def Let_def u m_def split: if_splits)
  from x have "\<bar>x\<bar> < pow2 (ilog2 \<bar>x\<bar> + 1)" using ilog2_bounds [of "\<bar>x\<bar>"] by simp
  also have "\<dots> \<le> pow2 (E + 1)" by (intro pow2_mono) (simp add: E_def)
  finally have xb: "\<bar>x\<bar> < pow2 (E + 1)" .
  have "\<bar>x / pow2 (E - 52)\<bar> = \<bar>x\<bar> / pow2 (E - 52)"
    using pow2_pos [of "E - 52"] by simp
  also have "\<dots> < pow2 (E + 1) / pow2 (E - 52)"
    using xb pow2_pos [of "E - 52"] by (simp add: divide_strict_right_mono)
  also have "\<dots> = pow2 53"
  proof -
    have "pow2 (E + 1) / pow2 (E - 52) = pow2 ((E + 1) - (E - 52))"
      by (rule pow2_diff [symmetric])
    also have "(E + 1) - (E - 52) = 53" by simp
    finally show ?thesis .
  qed
  also have "\<dots> = of_int (2 ^ 53)" by (simp add: pow2_def)
  finally have mb: "\<bar>m\<bar> \<le> 2 ^ 53" unfolding m_def by (rule round_half_even_bound)
  from False r have m0: "m \<noteq> 0" by auto
  define E' where "E' = max (ilog2 \<bar>r\<bar>) (- 1022)"
  have u': "ulp r = pow2 (E' - 52)" by (simp add: ulp_def E'_def)
  have rabs: "\<bar>r\<bar> = of_int \<bar>m\<bar> * pow2 (E - 52)"
    using pow2_pos [of "E - 52"] by (simp add: r abs_mult)
  have int: "of_int \<lfloor>r / pow2 (E' - 52)\<rfloor> = r / pow2 (E' - 52)"
  proof (cases "\<bar>m\<bar> = 2 ^ 53")
    case True
    then have "\<bar>r\<bar> = pow2 53 * pow2 (E - 52)" by (simp add: rabs pow2_def)
    also have "\<dots> = pow2 (E + 1)" by (rule pow2_53_mult)
    finally have re: "\<bar>r\<bar> = pow2 (E + 1)" .
    have "ilog2 \<bar>r\<bar> = E + 1"
      unfolding re by (rule ilog2_eqI) (simp_all add: pow2_powi power_int_strict_increasing)
    then have "E' = E + 1" by (simp add: E'_def E_def)
    then have "r / pow2 (E' - 52) = of_int m * (pow2 (E - 52) / pow2 (E + 1 - 52))"
      by (simp add: r)
    also have "pow2 (E - 52) / pow2 (E + 1 - 52) = 1 / 2"
    proof -
      have "pow2 (E - 52) / pow2 (E + 1 - 52) = pow2 ((E - 52) - (E + 1 - 52))"
        by (rule pow2_diff [symmetric])
      also have "(E - 52) - (E + 1 - 52) = - 1" by simp
      also have "pow2 (- 1) = 1 / 2" by (simp add: pow2_def)
      finally show ?thesis .
    qed
    finally have h: "r / pow2 (E' - 52) = of_int m / 2" by simp
    have "even m"
    proof -
      from True have "even \<bar>m\<bar>" by simp
      then show ?thesis by simp
    qed
    then obtain k where "m = 2 * k" by (elim evenE)
    with h have "r / pow2 (E' - 52) = of_int k" by simp
    then show ?thesis by simp
  next
    case False
    with mb have "\<bar>m\<bar> < 2 ^ 53" by simp
    then have "rat_of_int \<bar>m\<bar> < of_int (2 ^ 53)" by (simp only: of_int_less_iff)
    then have "\<bar>r\<bar> < pow2 53 * pow2 (E - 52)"
      using pow2_pos [of "E - 52"] by (simp add: rabs pow2_def)
    also have "\<dots> = pow2 (E + 1)" by (rule pow2_53_mult)
    finally have "\<bar>r\<bar> < pow2 (E + 1)" .
    with \<open>r \<noteq> 0\<close> have "ilog2 \<bar>r\<bar> \<le> E" by (intro ilog2_le) simp_all
    then have le: "E' \<le> E" by (simp add: E'_def E_def)
    have "r / pow2 (E' - 52) = of_int m * (pow2 (E - 52) / pow2 (E' - 52))" by (simp add: r)
    also have "pow2 (E - 52) / pow2 (E' - 52) = pow2 (E - E')"
    proof -
      have "pow2 (E - 52) / pow2 (E' - 52) = pow2 ((E - 52) - (E' - 52))"
        by (rule pow2_diff [symmetric])
      also have "(E - 52) - (E' - 52) = E - E'" by simp
      finally show ?thesis .
    qed
    also have "\<dots> = of_int (2 ^ nat (E - E'))" using le by (simp add: pow2_nat)
    finally have "r / pow2 (E' - 52) = of_int (m * 2 ^ nat (E - E'))" by simp
    then show ?thesis by simp
  qed
  from fin int show ?thesis by (simp add: is_double_def u' False)
qed

subsection \<open>Comparison and maximum\<close>

lemma f_gt_imp_f_le: "f_gt b a \<Longrightarrow> f_le a b"
  by (cases a; cases b) simp_all

lemma f_le_refl: "a \<noteq> NaN \<Longrightarrow> f_le a a"
  by (cases a) simp_all

lemma f_le_py_max: "a \<noteq> NaN \<Longrightarrow> f_le a (py_max a b)"
  by (simp add: py_max_def f_gt_imp_f_le f_le_refl)

subsection \<open>Rounding against binary64 bounds\<close>

lemma round_half_even_le:
  assumes "y \<le> of_int k"
  shows "round_half_even y \<le> k"
proof -
  from round_half_even_error [of y] assms
  have "rat_of_int (round_half_even y) < of_int k + 1" by linarith
  then have "rat_of_int (round_half_even y) < rat_of_int (k + 1)" by simp
  then have "round_half_even y < k + 1" by (simp only: of_int_less_iff)
  then show ?thesis by simp
qed

lemma round_half_even_nonneg:
  assumes "0 \<le> y"
  shows "0 \<le> round_half_even y"
proof -
  from round_half_even_error [of y] assms
  have "- 1 < rat_of_int (round_half_even y)" by linarith
  then have "rat_of_int (- 1) < rat_of_int (round_half_even y)" by simp
  then have "- 1 < round_half_even y" by (simp only: of_int_less_iff)
  then show ?thesis by simp
qed

lemma ilog2_ge:
  assumes "pow2 k \<le> y"
  shows "k \<le> ilog2 y"
proof (rule ccontr)
  assume "\<not> k \<le> ilog2 y"
  then have "pow2 (ilog2 y + 1) \<le> pow2 k" by (intro pow2_mono) simp
  moreover from assms pow2_pos [of k] have "0 < y" by linarith
  ultimately show False using ilog2_bounds [of y] assms by linarith
qed

text \<open>A binary64 number is a multiple of the spacing of every binade that is not above its own.\<close>

lemma is_double_multiple:
  assumes "is_double d" and "d \<noteq> 0" and "E \<le> max (ilog2 \<bar>d\<bar>) (- 1022)"
  shows "\<exists>k. d = of_int k * pow2 (E - 52)"
proof -
  define E' where "E' = max (ilog2 \<bar>d\<bar>) (- 1022)"
  have u: "ulp d = pow2 (E' - 52)" by (simp add: ulp_def E'_def)
  from assms(1,2) have i: "of_int \<lfloor>d / ulp d\<rfloor> = d / ulp d" unfolding is_double_def by blast
  have "d = (d / ulp d) * pow2 (E' - 52)"
    using pow2_pos [of "E' - 52"] by (simp add: u)
  then have "d = of_int \<lfloor>d / ulp d\<rfloor> * pow2 (E' - 52)"
    by (simp only: i)
  also have "pow2 (E' - 52) = pow2 (E' - E) * pow2 (E - 52)"
  proof -
    have "pow2 (E' - E) * pow2 (E - 52) = pow2 ((E' - E) + (E - 52))" by (rule pow2_add [symmetric])
    also have "(E' - E) + (E - 52) = E' - 52" by simp
    finally show ?thesis by simp
  qed
  also have "pow2 (E' - E) = of_int (2 ^ nat (E' - E))"
    using assms(3) by (simp add: pow2_nat E'_def)
  finally have "d = of_int (\<lfloor>d / ulp d\<rfloor> * 2 ^ nat (E' - E)) * pow2 (E - 52)" by simp
  then show ?thesis by blast
qed

lemma round_double_cases:
  assumes "x \<noteq> 0"
  shows "round_double x =
    (let r = of_int (round_half_even (x / ulp x)) * ulp x
     in if pow2 1024 \<le> r then PInf else if r \<le> - pow2 1024 then NInf else Finite r)"
  using assms by (simp add: round_double_def Let_def)

lemma is_double_bound: "is_double d \<Longrightarrow> \<bar>d\<bar> < pow2 1024"
  using pow2_pos [of 1024] by (auto simp add: is_double_def)

lemma pow2_52_mult: "pow2 52 * pow2 (E - 52) = pow2 E"
proof -
  have "pow2 52 * pow2 (E - 52) = pow2 (52 + (E - 52))" by (rule pow2_add [symmetric])
  also have "52 + (E - 52) = E" by simp
  finally show ?thesis .
qed

text \<open>Rounding never crosses a binary64 number: a bound that is one stays a bound.\<close>

lemma round_double_le_double:
  assumes d: "is_double d" and xd: "x \<le> d"
  shows "f_le (round_double x) (Finite d)"
proof (cases "x = 0")
  case True
  with xd show ?thesis by (simp add: round_double_def)
next
  case False
  define E where "E = max (ilog2 \<bar>x\<bar>) (- 1022)"
  define q where "q = pow2 (E - 52)"
  define r where "r = of_int (round_half_even (x / q)) * q"
  have u: "ulp x = q" by (simp add: ulp_def E_def q_def)
  have q: "0 < q" by (simp add: q_def pow2_pos)
  have key: "r \<le> of_int k * q" if "x \<le> of_int k * q" for k
  proof -
    from that q have "x / q \<le> of_int k" by (simp add: pos_divide_le_eq)
    then have "round_half_even (x / q) \<le> k" by (rule round_half_even_le)
    then have "rat_of_int (round_half_even (x / q)) \<le> of_int k" by (simp only: of_int_le_iff)
    with q show ?thesis unfolding r_def by (intro mult_right_mono) simp_all
  qed
  have rd: "r \<le> d"
  proof (cases "d = 0")
    case True
    with xd key [of 0] show ?thesis by simp
  next
    case dnz: False
    show ?thesis
    proof (cases "E \<le> max (ilog2 \<bar>d\<bar>) (- 1022)")
      case True
      from is_double_multiple [OF d dnz True] obtain k where k: "d = of_int k * q"
        unfolding q_def by blast
      with xd key [of k] show ?thesis by simp
    next
      case small: False
      then have e1: "ilog2 \<bar>d\<bar> < E" and e2: "- 1022 < E" by simp_all
      from e2 have E: "E = ilog2 \<bar>x\<bar>" by (simp add: E_def split: if_splits)
      from False have "0 < \<bar>x\<bar>" by simp
      from ilog2_bounds [OF this] have xlo: "pow2 E \<le> \<bar>x\<bar>" by (simp add: E)
      from dnz have "0 < \<bar>d\<bar>" by simp
      from ilog2_bounds [OF this] have "\<bar>d\<bar> < pow2 (ilog2 \<bar>d\<bar> + 1)" by simp
      also from e1 have "\<dots> \<le> pow2 E" by (intro pow2_mono) simp
      finally have dhi: "\<bar>d\<bar> < pow2 E" .
      from xlo dhi xd have xneg: "x \<le> - pow2 E" by linarith
      have "- pow2 E = of_int (- (2 ^ 52)) * q"
        using pow2_52_mult [of E] by (simp add: q_def pow2_def)
      with xneg have "x \<le> of_int (- (2 ^ 52)) * q" by simp
      then have "r \<le> of_int (- (2 ^ 52)) * q" by (rule key)
      also have "\<dots> = - pow2 E" using pow2_52_mult [of E] by (simp add: q_def pow2_def)
      also from dhi have "\<dots> < d" by linarith
      finally show ?thesis by simp
    qed
  qed
  from is_double_bound [OF d] rd have "\<not> pow2 1024 \<le> r" by linarith
  with rd show ?thesis
    by (simp add: round_double_cases [OF False] u r_def [symmetric] Let_def)
qed

lemma round_double_nonneg:
  assumes "0 \<le> x"
  shows "round_double x = PInf \<or> (\<exists>r. round_double x = Finite r \<and> 0 \<le> r)"
proof (cases "x = 0")
  case True
  then show ?thesis by (simp add: round_double_def)
next
  case False
  define r where "r = of_int (round_half_even (x / ulp x)) * ulp x"
  from assms ulp_pos [of x] have "0 \<le> x / ulp x" by simp
  then have "0 \<le> round_half_even (x / ulp x)" by (rule round_half_even_nonneg)
  with ulp_pos [of x] have "0 \<le> r" by (simp add: r_def)
  moreover from pow2_pos [of 1024] this have "\<not> r \<le> - pow2 1024" by linarith
  ultimately show ?thesis
    by (simp add: round_double_cases [OF False] r_def [symmetric] Let_def)
qed

lemma ulp_le:
  assumes "x \<noteq> 0" and "\<bar>x\<bar> < pow2 (k + 1)" and "- 1022 \<le> k"
  shows "ulp x \<le> pow2 (k - 52)"
proof -
  from assms(1) have "0 < \<bar>x\<bar>" by simp
  from ilog2_le [OF this assms(2)] assms(3) show ?thesis
    unfolding ulp_def by (intro pow2_mono) simp
qed

lemma ulp_le_abs:
  assumes "x \<noteq> 0"
  shows "ulp x \<le> \<bar>x\<bar> * pow2 (- 52) + pow2 (- 1074)"
proof (cases "- 1022 \<le> ilog2 \<bar>x\<bar>")
  case True
  then have "ulp x = pow2 (ilog2 \<bar>x\<bar> + (- 52))" by (simp add: ulp_def max_def)
  also have "\<dots> = pow2 (ilog2 \<bar>x\<bar>) * pow2 (- 52)" by (rule pow2_add)
  also have "\<dots> \<le> \<bar>x\<bar> * pow2 (- 52)"
    using ilog2_bounds [of "\<bar>x\<bar>"] assms pow2_pos [of "- 52"]
    by (intro mult_right_mono) simp_all
  finally show ?thesis using pow2_pos [of "- 1074"] by linarith
next
  case False
  then have "ulp x = pow2 (- 1074)" by (simp add: ulp_def max_def)
  moreover have "0 \<le> \<bar>x\<bar> * pow2 (- 52)" using pow2_pos [of "- 52"] by simp
  ultimately show ?thesis by linarith
qed

lemma round_double_candidate_le:
  "of_int (round_half_even (x / ulp x)) * ulp x \<le> x + ulp x / 2"
proof -
  let ?m = "rat_of_int (round_half_even (x / ulp x))"
  from round_half_even_error [of "x / ulp x"] have "?m \<le> x / ulp x + 1 / 2" by linarith
  then have "?m * ulp x \<le> (x / ulp x + 1 / 2) * ulp x"
    using ulp_pos [of x] by (intro mult_right_mono) simp_all
  also have "\<dots> = x + ulp x / 2" using ulp_pos [of x] by (simp add: distrib_right)
  finally show ?thesis .
qed

lemma round_double_finite:
  assumes "0 \<le> x" and "x < pow2 1024 - pow2 970"
  shows "\<exists>r. round_double x = Finite r \<and> 0 \<le> r"
proof (cases "x = 0")
  case True
  then show ?thesis by (simp add: round_double_def)
next
  case False
  have "pow2 1024 - pow2 970 \<le> pow2 (1023 + 1)" using pow2_pos [of 970] by simp
  with assms have "\<bar>x\<bar> < pow2 (1023 + 1)" by linarith
  from ulp_le [OF False this] have "ulp x \<le> pow2 971" by simp
  also have "pow2 971 = 2 * pow2 970"
  proof -
    have "pow2 (1 + 970) = pow2 1 * pow2 970" by (rule pow2_add)
    then show ?thesis by (simp add: pow2_def)
  qed
  finally have "ulp x / 2 \<le> pow2 970" by simp
  with round_double_candidate_le [of x] assms(2)
  have "\<not> pow2 1024 \<le> of_int (round_half_even (x / ulp x)) * ulp x" by linarith
  then have "round_double x \<noteq> PInf"
    by (simp add: round_double_cases [OF False] Let_def)
  with round_double_nonneg [OF assms(1)] show ?thesis by blast
qed

lemma is_double_le_max:
  assumes "is_double b"
  shows "b \<le> pow2 1024 - pow2 971"
proof (cases "b < pow2 1023")
  case True
  have "pow2 1024 = 2 * pow2 1023"
  proof -
    have "pow2 (1 + 1023) = pow2 1 * pow2 1023" by (rule pow2_add)
    then show ?thesis by (simp add: pow2_def)
  qed
  moreover have "pow2 971 \<le> pow2 1023" by (intro pow2_mono) simp
  ultimately show ?thesis using True by linarith
next
  case False
  then have lo: "pow2 1023 \<le> b" by simp
  with pow2_pos [of 1023] have pos: "0 < b" by linarith
  then have ab: "\<bar>b\<bar> = b" by simp
  from lo have "1023 \<le> ilog2 \<bar>b\<bar>" unfolding ab by (rule ilog2_ge)
  then have "1023 \<le> max (ilog2 \<bar>b\<bar>) (- 1022)" by simp
  from is_double_multiple [OF assms _ this] pos obtain k where k: "b = of_int k * pow2 971"
    by auto
  have p: "pow2 1024 = of_int (2 ^ 53) * pow2 971"
  proof -
    have "pow2 (53 + 971) = pow2 53 * pow2 971" by (rule pow2_add)
    then show ?thesis by (simp add: pow2_def)
  qed
  from is_double_bound [OF assms] have "b < pow2 1024" unfolding ab .
  then have "of_int k * pow2 971 < of_int (2 ^ 53) * pow2 971" unfolding k p .
  then have "rat_of_int k < of_int (2 ^ 53)" using pow2_pos [of 971] by (simp only: mult_less_cancel_right_pos)
  then have "k < 2 ^ 53" by (simp only: of_int_less_iff)
  then have "k \<le> 2 ^ 53 - 1" by simp
  then have "rat_of_int k \<le> of_int (2 ^ 53 - 1)" by (simp only: of_int_le_iff)
  then have "of_int k * pow2 971 \<le> of_int (2 ^ 53 - 1) * pow2 971"
    using pow2_pos [of 971] by (intro mult_right_mono) simp_all
  also have "\<dots> = pow2 1024 - pow2 971" unfolding p by (simp add: left_diff_distrib)
  finally show ?thesis unfolding k .
qed

lemma round_double_one:
  assumes "1 \<le> x" and "x \<le> 1 + pow2 (- 53)"
  shows "round_double x = Finite 1"
proof (rule round_double_eqI [where e = 0 and m = "2 ^ 52" and q = "pow2 (- 52)"])
  show "pow2 0 \<le> \<bar>x\<bar>" using assms by (simp add: pow2_def)
  show "\<bar>x\<bar> < pow2 (0 + 1)" using assms by (simp add: pow2_def)
  show "pow2 (- 52) = pow2 (max 0 (- 1022) - 52)" by simp
  show "\<bar>x / pow2 (- 52) - of_int (2 ^ 52)\<bar> < 1 / 2 \<or>
      \<bar>x / pow2 (- 52) - of_int (2 ^ 52)\<bar> = 1 / 2 \<and> even ((2::int) ^ 52)"
    using assms by (simp add: pow2_def) linarith
  show "1 = of_int (2 ^ 52) * pow2 (- 52)" by (simp add: pow2_def)
  show "\<bar>1::rat\<bar> < pow2 1024" by (simp add: pow2_def)
qed

subsection \<open>The rounded numerator of the Kelly formula\<close>

lemma f_le_Finite_trans: "f_le a (Finite d) \<Longrightarrow> d \<le> d' \<Longrightarrow> f_le a (Finite d')"
  by (cases a) simp_all

lemma is_double_zero: "is_double 0"
  by (simp add: is_double_def)

lemma is_double_pow2_m52: "is_double (pow2 (- 52))"
  by (rule is_double_eqI [where e = "- 52" and m = "2 ^ 52" and q = "pow2 (- 104)"])
     (simp_all add: pow2_def)

lemma is_double_one_plus: "is_double (1 + pow2 (- 52))"
  by (rule is_double_eqI [where e = 0 and m = "2 ^ 52 + 1" and q = "pow2 (- 52)"])
     (simp_all add: pow2_def)

lemma kelly_rounding_arith:
  fixes b c v w U1 U2 T :: rat
  assumes "c \<le> b + 1 + U1 / 2"
    and "U1 \<le> (b + 1) / 4503599627370496 + T"
    and "w \<le> v - 1 + U2 / 2"
    and "U2 \<le> (v - 1) / 4503599627370496 + T"
    and "T \<le> 1 / 81129638414606681695789005144064"
    and "1 / 4503599627370496 < b" and "v \<le> c"
  shows "w \<le> 2 * b"
proof -
  let ?u = "1 / 9007199254740992 :: rat"
  from assms(1,2) have c: "c - 1 \<le> b + (b + 1) * ?u + T / 2" by linarith
  from assms(3,4) have w: "w \<le> (v - 1) + (v - 1) * ?u + T / 2" by linarith
  from assms(7) c have y: "v - 1 \<le> b + (b + 1) * ?u + T / 2" by linarith
  then have "(v - 1) * ?u \<le> (b + (b + 1) * ?u + T / 2) * ?u"
    by (intro mult_right_mono) simp_all
  with w y have "w \<le> (b + (b + 1) * ?u + T / 2) + (b + (b + 1) * ?u + T / 2) * ?u + T / 2"
    by linarith
  also have "\<dots> \<le> 2 * b" using assms(5,6) by (simp add: field_simps)
  finally show ?thesis .
qed


text \<open>
  The numerator of the Kelly formula as the code computes it,
  \<open>fl (fl (p * fl (b + 1)) - 1)\<close>, is at most \<open>2 * b\<close>.
\<close>

lemma kelly_numerator_le:
  assumes bd: "is_double b" and bpos: "0 < b" and p0: "0 \<le> p" and p1: "p \<le> 1"
  shows "f_le (f_sub (f_mul (Finite p) (f_add (Finite b) (Finite 1))) (Finite 1)) (Finite (2 * b))"
proof -
  have "pow2 971 = 2 * pow2 970"
  proof -
    have "pow2 (1 + 970) = pow2 1 * pow2 970" by (rule pow2_add)
    then show ?thesis by (simp add: pow2_def)
  qed
  moreover have "1 < pow2 970"
  proof -
    have "pow2 1 \<le> pow2 970" by (intro pow2_mono) simp
    then show ?thesis by (simp add: pow2_def)
  qed
  ultimately have "b + 1 < pow2 1024 - pow2 970" using is_double_le_max [OF bd] by linarith
  with bpos round_double_finite [of "b + 1"]
  obtain c where c: "round_double (b + 1) = Finite c" and c0: "0 \<le> c" by auto
  from round_double_is_double [OF c] have cd: "is_double c" .
  from p0 p1 c0 have pc0: "0 \<le> p * c" and pc1: "p * c \<le> c"
    by (simp_all add: mult_left_le_one_le)
  from round_double_le_double [OF cd pc1] round_double_nonneg [OF pc0]
  obtain v where v: "round_double (p * c) = Finite v" and v0: "0 \<le> v" and vc: "v \<le> c"
    by auto
  have goal: "f_sub (f_mul (Finite p) (f_add (Finite b) (Finite 1))) (Finite 1) =
      round_double (v - 1)"
    by (simp add: f_sub_def c v)
  have neg: "f_le (round_double (v - 1)) (Finite (2 * b))" if "v - 1 \<le> 0"
  proof -
    from round_double_le_double [OF is_double_zero that] show ?thesis
      by (rule f_le_Finite_trans) (use bpos in simp)
  qed
  consider (tiny) "b \<le> pow2 (- 53)" | (small) "pow2 (- 53) < b" "b \<le> pow2 (- 52)"
    | (large) "pow2 (- 52) < b" by linarith
  then have "f_le (round_double (v - 1)) (Finite (2 * b))"
  proof cases
    case tiny
    with bpos have "round_double (b + 1) = Finite 1" by (intro round_double_one) simp_all
    with c have "c = 1" by simp
    with vc show ?thesis by (intro neg) simp
  next
    case small
    from small(2) have "b + 1 \<le> 1 + pow2 (- 52)" by simp
    from round_double_le_double [OF is_double_one_plus this] c
    have "c \<le> 1 + pow2 (- 52)" by simp
    with vc have "v - 1 \<le> pow2 (- 52)" by linarith
    from round_double_le_double [OF is_double_pow2_m52 this]
    show ?thesis
    proof (rule f_le_Finite_trans)
      have "pow2 (- 52) = 2 * pow2 (- 53)" by (simp add: pow2_def)
      with small(1) show "pow2 (- 52) \<le> 2 * b" by linarith
    qed
  next
    case large
    show ?thesis
    proof (cases "v - 1 \<le> 0")
      case True
      then show ?thesis by (rule neg)
    next
      case False
      then have y0: "0 \<le> v - 1" and ynz: "v - 1 \<noteq> 0" by simp_all
      from vc have "v - 1 \<le> c" by simp
      from round_double_le_double [OF cd this] round_double_nonneg [OF y0]
      obtain w where w: "round_double (v - 1) = Finite w" by auto
      have b1: "b + 1 \<noteq> 0" using bpos by simp
      have e1: "c \<le> b + 1 + ulp (b + 1) / 2" using round_double_error [OF c] by linarith
      have p52: "pow2 (- 52) = 1 / 4503599627370496" by (simp add: pow2_def)
      from ulp_le_abs [OF b1] bpos
      have e2: "ulp (b + 1) \<le> (b + 1) / 4503599627370496 + pow2 (- 1074)"
        by (simp add: p52)
      have e3: "w \<le> v - 1 + ulp (v - 1) / 2" using round_double_error [OF w] by linarith
      from ulp_le_abs [OF ynz] y0
      have e4: "ulp (v - 1) \<le> (v - 1) / 4503599627370496 + pow2 (- 1074)"
        by (simp add: p52)
      have "pow2 (- 1074) \<le> pow2 (- 106)" by (intro pow2_mono) simp
      then have e5: "pow2 (- 1074) \<le> 1 / 81129638414606681695789005144064"
        by (simp add: pow2_def)
      from large have e6: "1 / 4503599627370496 < b" by (simp add: p52)
      from e1 e2 e3 e4 e5 e6 vc have "w \<le> 2 * b" by (rule kelly_rounding_arith)
      then show ?thesis by (simp add: w)
    qed
  qed
  then show ?thesis by (simp only: goal)
qed

section \<open>Properties of the risk profiles\<close>

lemma map_of_RISK_PROFILES:
  "map_of RISK_PROFILES profile =
     (if profile = ''conservative'' then Some (Finite (1 / 4))
      else if profile = ''moderate'' then Some (Finite (1 / 2))
      else if profile = ''aggressive'' then Some (Finite 1)
      else None)"
  by (simp add: RISK_PROFILES_def)

section \<open>Properties of the sizing function\<close>

lemma raw_kelly_zero: "raw_kelly p (Finite 0) = Inl ZeroDivisionError"
  by (simp add: raw_kelly_def)

lemma f_div_nonzero: "b \<noteq> Finite 0 \<Longrightarrow> \<exists>r. f_div a b = Inr r"
  by (cases a; cases b) simp_all

lemma raw_kelly_nonzero: "b \<noteq> Finite 0 \<Longrightarrow> \<exists>r. raw_kelly p b = Inr r"
  unfolding raw_kelly_def by (rule f_div_nonzero)

lemma calculate_floor:
  assumes "b \<noteq> Finite 0"
  shows "\<exists>r. calculate self p b = Inr r \<and> f_le lit_0_01 r"
proof -
  from raw_kelly_nonzero [OF assms] obtain raw where "raw_kelly p b = Inr raw" by blast
  then have "calculate self p b = Inr (py_max lit_0_01 (f_mul raw (multiplier self)))"
    by (simp add: calculate_def)
  moreover have "f_le lit_0_01 (py_max lit_0_01 (f_mul raw (multiplier self)))"
    by (rule f_le_py_max) (simp add: lit_0_01_eq)
  ultimately show ?thesis by blast
qed

lemma calculate_exact:
  assumes "b \<noteq> 0" and "exact_ops p b m" and "multiplier self = Finite m"
  shows "calculate self (Finite p) (Finite b) =
           Inr (py_max lit_0_01 (Finite (spec_kelly_fraction p b * m)))"
proof -
  from assms(2) have e1: "round_double (b + 1) = Finite (b + 1)"
    and e2: "round_double (p * (b + 1)) = Finite (p * (b + 1))"
    and e3: "round_double (p * (b + 1) - 1) = Finite (p * (b + 1) - 1)"
    and e4: "round_double ((p * (b + 1) - 1) / b) = Finite ((p * (b + 1) - 1) / b)"
    and e5: "round_double ((p * (b + 1) - 1) / b * m) = Finite ((p * (b + 1) - 1) / b * m)"
    unfolding exact_ops_def spec_kelly_fraction_def by (simp_all add: round_double_exact)
  have a1: "f_add (Finite b) (Finite 1) = Finite (b + 1)" by (simp only: f_add.simps e1)
  have a2: "f_mul (Finite p) (Finite (b + 1)) = Finite (p * (b + 1))" by (simp only: f_mul.simps e2)
  have a3: "f_sub (Finite (p * (b + 1))) (Finite 1) = Finite (p * (b + 1) - 1)"
    using e3 by (simp add: f_sub_def)
  have a4: "f_div (Finite (p * (b + 1) - 1)) (Finite b) = Inr (Finite ((p * (b + 1) - 1) / b))"
    using e4 assms(1) by simp
  have a5: "f_mul (Finite ((p * (b + 1) - 1) / b)) (Finite m) = Finite ((p * (b + 1) - 1) / b * m)"
    by (simp only: f_mul.simps e5)
  have "raw_kelly (Finite p) (Finite b) = Inr (Finite ((p * (b + 1) - 1) / b))"
    unfolding raw_kelly_def by (simp only: a1 a2 a3 a4)
  then show ?thesis
    by (simp add: calculate_def assms(3) spec_kelly_fraction_def a5 del: f_mul.simps)
qed

lemma spec_kelly_fraction_le_one:
  assumes "0 \<le> p" "p \<le> 1" "0 < b"
  shows "spec_kelly_fraction p b \<le> 1"
proof -
  have "p * (b + 1) - 1 \<le> b"
  proof -
    have "p * (b + 1) \<le> 1 * (b + 1)" using assms by (intro mult_right_mono) simp_all
    then show ?thesis by simp
  qed
  then show ?thesis using assms(3) by (simp add: spec_kelly_fraction_def divide_le_eq)
qed

subsection \<open>An upper bound of the result under rounding\<close>

lemma is_double_two: "is_double 2"
  by (rule is_double_eqI [where e = 1 and m = "2 ^ 52" and q = "pow2 (- 51)"])
     (simp_all add: pow2_def)

lemma is_double_one: "is_double 1"
  by (rule is_double_eqI [where e = 0 and m = "2 ^ 52" and q = "pow2 (- 52)"])
     (simp_all add: pow2_def)

lemma is_double_half: "is_double (1 / 2)"
  by (rule is_double_eqI [where e = "- 1" and m = "2 ^ 52" and q = "pow2 (- 53)"])
     (simp_all add: pow2_def)

text \<open>The Kelly fraction as the code computes it is at most \<open>2\<close>.\<close>

lemma raw_kelly_le_two:
  assumes "is_double b" and "0 < b" and "0 \<le> p" and "p \<le> 1"
  shows "\<exists>R. raw_kelly (Finite p) (Finite b) = Inr R \<and> f_le R (Finite 2)"
proof -
  define N where "N = f_sub (f_mul (Finite p) (f_add (Finite b) (Finite 1))) (Finite 1)"
  from kelly_numerator_le [OF assms] have n: "f_le N (Finite (2 * b))" by (simp add: N_def)
  have rk: "raw_kelly (Finite p) (Finite b) = f_div N (Finite b)"
    by (simp only: raw_kelly_def N_def)
  show ?thesis
  proof (cases N)
    case (Finite n)
    with n have "n \<le> 2 * b" by simp
    with assms(2) have "n / b \<le> 2" by (simp add: pos_divide_le_eq)
    from round_double_le_double [OF is_double_two this] Finite assms(2) show ?thesis
      by (simp add: rk)
  next
    case PInf
    with n show ?thesis by simp
  next
    case NInf
    with assms(2) show ?thesis by (simp add: rk)
  next
    case NaN
    with n show ?thesis by simp
  qed
qed

lemma f_mul_le_scaled:
  assumes "f_le R (Finite 2)" and "is_double (2 * m)" and "0 < m"
  shows "f_le (f_mul R (Finite m)) (Finite (2 * m))"
proof (cases R)
  case (Finite r)
  with assms(1) have "r \<le> 2" by simp
  with assms(3) have "r * m \<le> 2 * m" by (intro mult_right_mono) simp_all
  from round_double_le_double [OF assms(2) this] Finite show ?thesis by simp
next
  case PInf
  with assms(1) show ?thesis by simp
next
  case NInf
  with assms(3) show ?thesis by (simp add: inf_of_sign_def)
next
  case NaN
  with assms(1) show ?thesis by simp
qed

lemma py_max_floor_le:
  assumes "f_le X (Finite d)" and "1 / 2 \<le> d"
  shows "f_le (py_max lit_0_01 X) (Finite d)"
  using assms by (simp add: py_max_def lit_0_01_eq)

lemma calculate_le_twice_multiplier:
  assumes "is_double b" and "0 < b" and "0 \<le> p" and "p \<le> 1"
    and "multiplier self = Finite m" and "is_double (2 * m)" and "1 / 4 \<le> m"
  shows "\<exists>r. calculate self (Finite p) (Finite b) = Inr r \<and> f_le r (Finite (2 * m))"
proof -
  from raw_kelly_le_two [OF assms(1-4)]
  obtain R where R: "raw_kelly (Finite p) (Finite b) = Inr R" and le: "f_le R (Finite 2)"
    by blast
  from assms(7) have "0 < m" by simp
  from f_mul_le_scaled [OF le assms(6) this]
  have "f_le (py_max lit_0_01 (f_mul R (Finite m))) (Finite (2 * m))"
    by (rule py_max_floor_le) (use assms(7) in simp)
  then show ?thesis by (simp add: calculate_def R assms(5))
qed

section \<open>Properties of the FIX admin handler\<close>

lemma name_lookup_os: "name_lookup module_names ''os'' = Inl NameError"
  by (simp add: name_lookup_def module_names_def)

lemma getattr_encrypt: "FIXEngine_getattr ''_encrypt'' = Inl AttributeError"
  by (simp add: FIXEngine_getattr_def FIXEngine_attrs_def)

lemma toAdmin_eq:
  "toAdmin env msg =
     (case header msg 35 of
        None \<Rightarrow> (Some FieldNotFound, msg)
      | Some t \<Rightarrow> if t = ''A'' then (Some NameError, msg) else (None, msg))"
  by (simp add: toAdmin_def toAdmin_in_def getField_def name_lookup_os split: option.split)

lemma toAdmin_unchanged: "snd (toAdmin env msg) = msg"
  by (simp add: toAdmin_eq split: option.split)

lemma toAdmin_in_cases:
  "snd (toAdmin_in names env msg) = msg \<or>
   (\<exists>user. setField 553 user msg = Inr (snd (toAdmin_in names env msg)))"
  unfolding toAdmin_in_def by (simp add: getattr_encrypt split: sum.split) blast

lemma setField_other:
  "setField tag v msg = Inr msg' \<Longrightarrow> t \<noteq> tag \<Longrightarrow> body msg' t = body msg t"
  by (cases v) (auto simp: setField_def)

lemma toAdmin_in_never_sets_554:
  "body (snd (toAdmin_in names env msg)) 554 = body msg 554"
proof -
  consider "snd (toAdmin_in names env msg) = msg"
    | user where "setField 553 user msg = Inr (snd (toAdmin_in names env msg))"
    using toAdmin_in_cases [of names env msg] by blast
  then show ?thesis
  proof cases
    case 1
    then show ?thesis by simp
  next
    case 2
    then show ?thesis by (rule setField_other) simp
  qed
qed

section \<open>Properties of the main loop\<close>

lemma getattr_emergency_shutdown:
  "QuantumTradingSystem_getattr ''_emergency_shutdown'' = Inl AttributeError"
  by (simp add: QuantumTradingSystem_getattr_def QuantumTradingSystem_attrs_def)

lemma run_loop_raise:
  "try_body i = Some e \<Longrightarrow>
     run_loop try_body i trace = Some (if is_Exception e then AttributeError else e, trace)"
  by (subst run_loop.simps) (simp add: getattr_emergency_shutdown)

lemma run_loop_step:
  "try_body i = None \<Longrightarrow> run_loop try_body i trace = run_loop try_body (Suc i) (trace @ [Slept])"
  by (subst run_loop.simps) simp


lemma run_loop_first_raise:
  assumes "\<forall>j<n. try_body (i + j) = None" and "try_body (i + n) = Some e"
  shows "run_loop try_body i trace =
           Some (if is_Exception e then AttributeError else e, trace @ replicate n Slept)"
  using assms
proof (induction n arbitrary: i trace)
  case 0
  then show ?case by (simp add: run_loop_raise)
next
  case (Suc n)
  from Suc.prems(1) have "try_body (i + 0) = None" by blast
  then have h: "try_body i = None" by simp
  have "\<forall>j<n. try_body (Suc i + j) = None"
  proof (intro allI impI)
    fix j assume "j < n"
    then have "Suc j < Suc n" by simp
    with Suc.prems(1) have "try_body (i + Suc j) = None" by blast
    then show "try_body (Suc i + j) = None" by simp
  qed
  moreover have "try_body (Suc i + n) = Some e" using Suc.prems(2) by simp
  ultimately have ih: "run_loop try_body (Suc i) (trace @ [Slept]) =
      Some (if is_Exception e then AttributeError else e, (trace @ [Slept]) @ replicate n Slept)"
    by (rule Suc.IH)
  have st: "run_loop try_body i trace = run_loop try_body (Suc i) (trace @ [Slept])"
    using h by (rule run_loop_step)
  show ?case unfolding st ih by (simp add: replicate_append_same)
qed

lemma run_loop_trace:
  assumes "run_loop try_body i trace = Some y"
  shows "\<exists>n. snd y = trace @ replicate n Slept"
  using assms
proof (induction rule: run_loop.raw_induct)
  case (1 rl tb j tr z)
  show ?case
  proof (cases "tb j")
    case None
    with 1(2) have "rl tb (Suc j) (tr @ [Slept]) = Some z" by simp
    moreover from 1(3) have "run_loop tb (Suc j) (tr @ [Slept]) = Some z"
      by (simp only: run_loop_step [of tb j tr, OF None])
    ultimately have "\<exists>n. snd z = (tr @ [Slept]) @ replicate n Slept" by (rule 1(1))
    then obtain n where "snd z = tr @ replicate (Suc n) Slept"
      by (auto simp: replicate_append_same)
    then show ?thesis by blast
  next
    case (Some e)
    with 1(2) have "snd z = tr"
      by (auto simp add: getattr_emergency_shutdown split: if_splits)
    then have "snd z = tr @ replicate 0 Slept" by simp
    then show ?thesis by blast
  qed
qed (rule assms)

lemma run_no_shutdown:
  assumes "run try_body = Some (err, trace)"
  shows "EmergencyShutdown e \<notin> set trace"
proof -
  from run_loop_trace [OF assms [unfolded run_def]]
  obtain n where "trace = [TaskCreated, InitiatorStarted] @ replicate n Slept" by auto
  then show ?thesis by auto
qed

section \<open>Evaluations of the sizing function at given inputs\<close>

text \<open>
  Each evaluation follows the five float operations of \<^verbatim>\<open>calculate\<close> one by one;
  every rounding step names the binade and the 53-bit significand of its result.
\<close>

lemma calculate_at_tiny_ratio:
  "calculate (AdaptiveKelly_init ''aggressive'') (Finite 1) (Finite (4503599627370497 / 40564819207303340847894502572032)) = Inr (Finite (4503599627370495 / 2251799813685248))"
proof -
  have a1: "f_add (Finite (4503599627370497 / 40564819207303340847894502572032)) (Finite 1) = Finite (4503599627370497 / 4503599627370496)"
  proof -
    have "round_double ((4503599627370497 / 40564819207303340847894502572032) + 1) = Finite (4503599627370497 / 4503599627370496)"
      by (rule round_double_eqI [where e = "0" and m = "4503599627370497" and q = "pow2 (- 52)"])
         (simp_all add: pow2_def)
    then show ?thesis by (simp add: f_sub_def)
  qed
  have a2: "f_mul (Finite 1) (Finite (4503599627370497 / 4503599627370496)) = Finite (4503599627370497 / 4503599627370496)"
  proof -
    have "round_double (1 * (4503599627370497 / 4503599627370496)) = Finite (4503599627370497 / 4503599627370496)"
      by (rule round_double_eqI [where e = "0" and m = "4503599627370497" and q = "pow2 (- 52)"])
         (simp_all add: pow2_def)
    then show ?thesis by (simp add: f_sub_def)
  qed
  have a3: "f_sub (Finite (4503599627370497 / 4503599627370496)) (Finite 1) = Finite (1 / 4503599627370496)"
  proof -
    have "round_double ((4503599627370497 / 4503599627370496) + - 1) = Finite (1 / 4503599627370496)"
      by (rule round_double_eqI [where e = "- 52" and m = "4503599627370496" and q = "pow2 (- 104)"])
         (simp_all add: pow2_def)
    then show ?thesis by (simp add: f_sub_def)
  qed
  have a4: "f_div (Finite (1 / 4503599627370496)) (Finite (4503599627370497 / 40564819207303340847894502572032)) = Inr (Finite (4503599627370495 / 2251799813685248))"
  proof -
    have "round_double ((1 / 4503599627370496) / (4503599627370497 / 40564819207303340847894502572032)) = Finite (4503599627370495 / 2251799813685248)"
      by (rule round_double_eqI [where e = "0" and m = "9007199254740990" and q = "pow2 (- 52)"])
         (simp_all add: pow2_def)
    then show ?thesis by (simp add: f_sub_def)
  qed
  have a5: "f_mul (Finite (4503599627370495 / 2251799813685248)) (Finite 1) = Finite (4503599627370495 / 2251799813685248)"
  proof -
    have "round_double ((4503599627370495 / 2251799813685248) * 1) = Finite (4503599627370495 / 2251799813685248)"
      by (rule round_double_eqI [where e = "0" and m = "9007199254740990" and q = "pow2 (- 52)"])
         (simp_all add: pow2_def)
    then show ?thesis by (simp add: f_sub_def)
  qed
  have m: "multiplier (AdaptiveKelly_init ''aggressive'') = Finite 1"
    by (simp add: AdaptiveKelly_init_def map_of_RISK_PROFILES)
  have k: "raw_kelly (Finite 1) (Finite (4503599627370497 / 40564819207303340847894502572032)) = Inr (Finite (4503599627370495 / 2251799813685248))"
    unfolding raw_kelly_def by (simp only: a1 a2 a3 a4)
  have c: "calculate (AdaptiveKelly_init ''aggressive'') (Finite 1) (Finite (4503599627370497 / 40564819207303340847894502572032)) = Inr (Finite (4503599627370495 / 2251799813685248))"
    by (simp add: calculate_def k m a5 py_max_def lit_0_01_eq del: f_mul.simps)
  show ?thesis by (rule c)
qed

lemma calculate_at_quarter_ratio:
  "calculate (AdaptiveKelly_init ''aggressive'') (Finite 1) (Finite (4503599627370499 / 18014398509481984)) = Inr (Finite (4503599627370497 / 4503599627370496))"
proof -
  have a1: "f_add (Finite (4503599627370499 / 18014398509481984)) (Finite 1) = Finite (5629499534213121 / 4503599627370496)"
  proof -
    have "round_double ((4503599627370499 / 18014398509481984) + 1) = Finite (5629499534213121 / 4503599627370496)"
      by (rule round_double_eqI [where e = "0" and m = "5629499534213121" and q = "pow2 (- 52)"])
         (simp_all add: pow2_def)
    then show ?thesis by (simp add: f_sub_def)
  qed
  have a2: "f_mul (Finite 1) (Finite (5629499534213121 / 4503599627370496)) = Finite (5629499534213121 / 4503599627370496)"
  proof -
    have "round_double (1 * (5629499534213121 / 4503599627370496)) = Finite (5629499534213121 / 4503599627370496)"
      by (rule round_double_eqI [where e = "0" and m = "5629499534213121" and q = "pow2 (- 52)"])
         (simp_all add: pow2_def)
    then show ?thesis by (simp add: f_sub_def)
  qed
  have a3: "f_sub (Finite (5629499534213121 / 4503599627370496)) (Finite 1) = Finite (1125899906842625 / 4503599627370496)"
  proof -
    have "round_double ((5629499534213121 / 4503599627370496) + - 1) = Finite (1125899906842625 / 4503599627370496)"
      by (rule round_double_eqI [where e = "- 2" and m = "4503599627370500" and q = "pow2 (- 54)"])
         (simp_all add: pow2_def)
    then show ?thesis by (simp add: f_sub_def)
  qed
  have a4: "f_div (Finite (1125899906842625 / 4503599627370496)) (Finite (4503599627370499 / 18014398509481984)) = Inr (Finite (4503599627370497 / 4503599627370496))"
  proof -
    have "round_double ((1125899906842625 / 4503599627370496) / (4503599627370499 / 18014398509481984)) = Finite (4503599627370497 / 4503599627370496)"
      by (rule round_double_eqI [where e = "0" and m = "4503599627370497" and q = "pow2 (- 52)"])
         (simp_all add: pow2_def)
    then show ?thesis by (simp add: f_sub_def)
  qed
  have a5: "f_mul (Finite (4503599627370497 / 4503599627370496)) (Finite 1) = Finite (4503599627370497 / 4503599627370496)"
  proof -
    have "round_double ((4503599627370497 / 4503599627370496) * 1) = Finite (4503599627370497 / 4503599627370496)"
      by (rule round_double_eqI [where e = "0" and m = "4503599627370497" and q = "pow2 (- 52)"])
         (simp_all add: pow2_def)
    then show ?thesis by (simp add: f_sub_def)
  qed
  have m: "multiplier (AdaptiveKelly_init ''aggressive'') = Finite 1"
    by (simp add: AdaptiveKelly_init_def map_of_RISK_PROFILES)
  have k: "raw_kelly (Finite 1) (Finite (4503599627370499 / 18014398509481984)) = Inr (Finite (4503599627370497 / 4503599627370496))"
    unfolding raw_kelly_def by (simp only: a1 a2 a3 a4)
  have c: "calculate (AdaptiveKelly_init ''aggressive'') (Finite 1) (Finite (4503599627370499 / 18014398509481984)) = Inr (Finite (4503599627370497 / 4503599627370496))"
    by (simp add: calculate_def k m a5 py_max_def lit_0_01_eq del: f_mul.simps)
  show ?thesis by (rule c)
qed

lemma is_double_tiny_ratio: "is_double (4503599627370497 / 40564819207303340847894502572032)"
  by (rule is_double_eqI [where e = "- 53" and m = "4503599627370497" and q = "pow2 (- 105)"])
     (simp_all add: pow2_def)

lemma is_double_quarter_ratio: "is_double (4503599627370499 / 18014398509481984)"
  by (rule is_double_eqI [where e = "- 2" and m = "4503599627370499" and q = "pow2 (- 54)"])
     (simp_all add: pow2_def)

lemma calculate_at_negative_ratio:
  "calculate (AdaptiveKelly_init ''moderate'') (Finite (1 / 2)) (Finite (- (1))) = Inr (Finite (1 / 2))"
proof -
  have a1: "f_add (Finite (- (1))) (Finite 1) = Finite 0"
  proof -
    have "round_double ((- (1)) + 1) = Finite 0"
      by (simp add: round_double_def)
    then show ?thesis by (simp add: f_sub_def)
  qed
  have a2: "f_mul (Finite (1 / 2)) (Finite 0) = Finite 0"
  proof -
    have "round_double ((1 / 2) * 0) = Finite 0"
      by (simp add: round_double_def)
    then show ?thesis by (simp add: f_sub_def)
  qed
  have a3: "f_sub (Finite 0) (Finite 1) = Finite (- (1))"
  proof -
    have "round_double (0 + - 1) = Finite (- (1))"
      by (rule round_double_eqI [where e = "0" and m = "- 4503599627370496" and q = "pow2 (- 52)"])
         (simp_all add: pow2_def)
    then show ?thesis by (simp add: f_sub_def)
  qed
  have a4: "f_div (Finite (- (1))) (Finite (- (1))) = Inr (Finite 1)"
  proof -
    have "round_double ((- (1)) / (- (1))) = Finite 1"
      by (rule round_double_eqI [where e = "0" and m = "4503599627370496" and q = "pow2 (- 52)"])
         (simp_all add: pow2_def)
    then show ?thesis by (simp add: f_sub_def)
  qed
  have a5: "f_mul (Finite 1) (Finite (1 / 2)) = Finite (1 / 2)"
  proof -
    have "round_double (1 * (1 / 2)) = Finite (1 / 2)"
      by (rule round_double_eqI [where e = "- 1" and m = "4503599627370496" and q = "pow2 (- 53)"])
         (simp_all add: pow2_def)
    then show ?thesis by (simp add: f_sub_def)
  qed
  have m: "multiplier (AdaptiveKelly_init ''moderate'') = Finite (1 / 2)"
    by (simp add: AdaptiveKelly_init_def map_of_RISK_PROFILES)
  have k: "raw_kelly (Finite (1 / 2)) (Finite (- (1))) = Inr (Finite 1)"
    unfolding raw_kelly_def by (simp only: a1 a2 a3 a4)
  have c: "calculate (AdaptiveKelly_init ''moderate'') (Finite (1 / 2)) (Finite (- (1))) = Inr (Finite (1 / 2))"
    by (simp add: calculate_def k m a5 py_max_def lit_0_01_eq del: f_mul.simps)
  show ?thesis by (rule c)
qed

lemma calculate_at_probability_two:
  "calculate (AdaptiveKelly_init ''moderate'') (Finite 2) (Finite 1) = Inr (Finite (3 / 2))"
proof -
  have a1: "f_add (Finite 1) (Finite 1) = Finite 2"
  proof -
    have "round_double (1 + 1) = Finite 2"
      by (rule round_double_eqI [where e = "1" and m = "4503599627370496" and q = "pow2 (- 51)"])
         (simp_all add: pow2_def)
    then show ?thesis by (simp add: f_sub_def)
  qed
  have a2: "f_mul (Finite 2) (Finite 2) = Finite 4"
  proof -
    have "round_double (2 * 2) = Finite 4"
      by (rule round_double_eqI [where e = "2" and m = "4503599627370496" and q = "pow2 (- 50)"])
         (simp_all add: pow2_def)
    then show ?thesis by (simp add: f_sub_def)
  qed
  have a3: "f_sub (Finite 4) (Finite 1) = Finite 3"
  proof -
    have "round_double (4 + - 1) = Finite 3"
      by (rule round_double_eqI [where e = "1" and m = "6755399441055744" and q = "pow2 (- 51)"])
         (simp_all add: pow2_def)
    then show ?thesis by (simp add: f_sub_def)
  qed
  have a4: "f_div (Finite 3) (Finite 1) = Inr (Finite 3)"
  proof -
    have "round_double (3 / 1) = Finite 3"
      by (rule round_double_eqI [where e = "1" and m = "6755399441055744" and q = "pow2 (- 51)"])
         (simp_all add: pow2_def)
    then show ?thesis by (simp add: f_sub_def)
  qed
  have a5: "f_mul (Finite 3) (Finite (1 / 2)) = Finite (3 / 2)"
  proof -
    have "round_double (3 * (1 / 2)) = Finite (3 / 2)"
      by (rule round_double_eqI [where e = "0" and m = "6755399441055744" and q = "pow2 (- 52)"])
         (simp_all add: pow2_def)
    then show ?thesis by (simp add: f_sub_def)
  qed
  have m: "multiplier (AdaptiveKelly_init ''moderate'') = Finite (1 / 2)"
    by (simp add: AdaptiveKelly_init_def map_of_RISK_PROFILES)
  have k: "raw_kelly (Finite 2) (Finite 1) = Inr (Finite 3)"
    unfolding raw_kelly_def by (simp only: a1 a2 a3 a4)
  have c: "calculate (AdaptiveKelly_init ''moderate'') (Finite 2) (Finite 1) = Inr (Finite (3 / 2))"
    by (simp add: calculate_def k m a5 py_max_def lit_0_01_eq del: f_mul.simps)
  show ?thesis by (rule c)
qed



lemma calculate_at_scenario:
  "calculate (AdaptiveKelly_init ''aggressive'') (Finite (5404319552844595 / 9007199254740992)) (Finite 2) = Inr (Finite (900719925474099 / 2251799813685248))"
proof -
  have a1: "f_add (Finite 2) (Finite 1) = Finite 3"
  proof -
    have "round_double (2 + 1) = Finite 3"
      by (rule round_double_eqI [where e = "1" and m = "6755399441055744" and q = "pow2 (- 51)"])
         (simp_all add: pow2_def)
    then show ?thesis by (simp add: f_sub_def)
  qed
  have a2: "f_mul (Finite (5404319552844595 / 9007199254740992)) (Finite 3) = Finite (2026619832316723 / 1125899906842624)"
  proof -
    have "round_double ((5404319552844595 / 9007199254740992) * 3) = Finite (2026619832316723 / 1125899906842624)"
      by (rule round_double_eqI [where e = "0" and m = "8106479329266892" and q = "pow2 (- 52)"])
         (simp_all add: pow2_def)
    then show ?thesis by (simp add: f_sub_def)
  qed
  have a3: "f_sub (Finite (2026619832316723 / 1125899906842624)) (Finite 1) = Finite (900719925474099 / 1125899906842624)"
  proof -
    have "round_double ((2026619832316723 / 1125899906842624) + - 1) = Finite (900719925474099 / 1125899906842624)"
      by (rule round_double_eqI [where e = "- 1" and m = "7205759403792792" and q = "pow2 (- 53)"])
         (simp_all add: pow2_def)
    then show ?thesis by (simp add: f_sub_def)
  qed
  have a4: "f_div (Finite (900719925474099 / 1125899906842624)) (Finite 2) = Inr (Finite (900719925474099 / 2251799813685248))"
  proof -
    have "round_double ((900719925474099 / 1125899906842624) / 2) = Finite (900719925474099 / 2251799813685248)"
      by (rule round_double_eqI [where e = "- 2" and m = "7205759403792792" and q = "pow2 (- 54)"])
         (simp_all add: pow2_def)
    then show ?thesis by (simp add: f_sub_def)
  qed
  have a5: "f_mul (Finite (900719925474099 / 2251799813685248)) (Finite 1) = Finite (900719925474099 / 2251799813685248)"
  proof -
    have "round_double ((900719925474099 / 2251799813685248) * 1) = Finite (900719925474099 / 2251799813685248)"
      by (rule round_double_eqI [where e = "- 2" and m = "7205759403792792" and q = "pow2 (- 54)"])
         (simp_all add: pow2_def)
    then show ?thesis by (simp add: f_sub_def)
  qed
  have m: "multiplier (AdaptiveKelly_init ''aggressive'') = Finite 1"
    by (simp add: AdaptiveKelly_init_def map_of_RISK_PROFILES)
  have k: "raw_kelly (Finite (5404319552844595 / 9007199254740992)) (Finite 2) = Inr (Finite (900719925474099 / 2251799813685248))"
    unfolding raw_kelly_def by (simp only: a1 a2 a3 a4)
  have c: "calculate (AdaptiveKelly_init ''aggressive'') (Finite (5404319552844595 / 9007199254740992)) (Finite 2) = Inr (Finite (900719925474099 / 2251799813685248))"
    by (simp add: calculate_def k m a5 py_max_def lit_0_01_eq del: f_mul.simps)
  show ?thesis by (rule c)
qed

lemma lit_0_6_eq: "round_double (3 / 5) = Finite (5404319552844595 / 9007199254740992)"
  by (rule round_double_eqI [where e = "- 1" and m = "5404319552844595" and q = "pow2 (- 53)"])
     (simp_all add: pow2_def)

lemma lit_0_4_eq: "round_double (2 / 5) = Finite (3602879701896397 / 9007199254740992)"
  by (rule round_double_eqI [where e = "- 2" and m = "7205759403792794" and q = "pow2 (- 54)"])
     (simp_all add: pow2_def)

lemma exact_ops_half_two: "exact_ops (1 / 2) 2 1"
proof -
  have d1: "is_double (3)"
    by (rule is_double_eqI [where e = "1" and m = "6755399441055744" and q = "pow2 (- 51)"])
       (simp_all add: pow2_def)
  have d2: "is_double (3 / 2)"
    by (rule is_double_eqI [where e = "0" and m = "6755399441055744" and q = "pow2 (- 52)"])
       (simp_all add: pow2_def)
  have d3: "is_double (1 / 2)"
    by (rule is_double_eqI [where e = "- 1" and m = "4503599627370496" and q = "pow2 (- 53)"])
       (simp_all add: pow2_def)
  have d4: "is_double (1 / 4)"
    by (rule is_double_eqI [where e = "- 2" and m = "4503599627370496" and q = "pow2 (- 54)"])
       (simp_all add: pow2_def)
  show ?thesis using d1 d2 d3 d4 by (simp add: exact_ops_def spec_kelly_fraction_def)
qed

lemma f_le_pos_imp_f_gt_zero: "f_le (Finite a) r \<Longrightarrow> 0 < a \<Longrightarrow> f_gt r (Finite 0)"
  by (cases r) simp_all

lemma py_max_floor_Finite:
  "py_max lit_0_01 (Finite v) = Finite (max (5764607523034235 / 576460752303423488) v)"
  by (simp add: py_max_def lit_0_01_eq max_def)

section \<open>The claims of the specification\<close>

subsection \<open>C1: range of the sizing result\<close>

text \<open>
  Claim C1, as stated, fails.  The specification says that for every win probability in
  \<open>[0, 1]\<close>, every positive win/loss ratio and every preset multiplier the result lies
  in \<open>[0.01, 1.0]\<close>.  The code applies the floor only, and binary64 rounding can push the
  scaled value above one: with the profile ``aggressive'', \<open>p = 1.0\<close> and
  \<open>b = 2\<^sup>-\<^sup>5\<^sup>3 (1 + 2\<^sup>-\<^sup>5\<^sup>2)\<close> (about \<open>1.11e-16\<close>) the sum \<open>b + 1\<close> rounds up to
  \<open>1 + 2\<^sup>-\<^sup>5\<^sup>2\<close> and the result is \<open>2 - 2\<^sup>-\<^sup>5\<^sup>1\<close> (printed 1.9999999999999996); with
  \<open>b = 0.25 + 3 * 2\<^sup>-\<^sup>5\<^sup>4\<close> the result is \<open>1 + 2\<^sup>-\<^sup>5\<^sup>2\<close>.
\<close>

theorem calculate_exceeds_one:
  "is_double (4503599627370497 / 40564819207303340847894502572032) \<and>
   calculate (AdaptiveKelly_init ''aggressive'') (Finite 1)
       (Finite (4503599627370497 / 40564819207303340847894502572032)) =
     Inr (Finite (4503599627370495 / 2251799813685248)) \<and>
   \<not> f_le (Finite (4503599627370495 / 2251799813685248)) (Finite 1) \<and>
   is_double (4503599627370499 / 18014398509481984) \<and>
   calculate (AdaptiveKelly_init ''aggressive'') (Finite 1)
       (Finite (4503599627370499 / 18014398509481984)) =
     Inr (Finite (4503599627370497 / 4503599627370496)) \<and>
   \<not> f_le (Finite (4503599627370497 / 4503599627370496)) (Finite 1)"
  using is_double_tiny_ratio calculate_at_tiny_ratio
    is_double_quarter_ratio calculate_at_quarter_ratio
  by simp

text \<open>
  Claim C1, amended.  For every win probability in \<open>[0, 1]\<close>, every finite positive
  float win/loss ratio and every preset profile, \<^verbatim>\<open>calculate\<close> returns a value; the value is
  at least the float \<open>0.01\<close>, hence never zero or negative, and at most \<open>2.0\<close>.  With
  the profiles ``conservative'' and ``moderate'' it is at most \<open>1.0\<close>, whatever the
  rounding.  With the profile ``aggressive'' it is at most \<open>1.0\<close> whenever none of the
  five float operations rounds; the code has no ceiling of its own.
\<close>

theorem calculate_range:
  assumes "is_double b" and "0 < b" and "0 \<le> p" and "p \<le> 1"
    and "profile \<in> {''conservative'', ''moderate'', ''aggressive''}"
  shows "\<exists>r. calculate (AdaptiveKelly_init profile) (Finite p) (Finite b) = Inr r \<and>
           f_le lit_0_01 r \<and> f_gt r (Finite 0) \<and> f_le r (Finite 2) \<and>
           (profile \<noteq> ''aggressive'' \<or> exact_ops p b 1 \<longrightarrow> f_le r (Finite 1))"
proof -
  let ?self = "AdaptiveKelly_init profile"
  from assms(2) have nz: "Finite b \<noteq> Finite 0" and bnz: "b \<noteq> 0" by simp_all
  from calculate_floor [OF nz]
  obtain r where r: "calculate ?self (Finite p) (Finite b) = Inr r"
    and lo: "f_le lit_0_01 r" by blast
  from lo have pos: "f_gt r (Finite 0)"
    unfolding lit_0_01_eq by (rule f_le_pos_imp_f_gt_zero) simp
  from assms(5) consider
      (conservative) "profile = ''conservative''" "multiplier ?self = Finite (1 / 4)"
    | (moderate) "profile = ''moderate''" "multiplier ?self = Finite (1 / 2)"
    | (aggressive) "profile = ''aggressive''" "multiplier ?self = Finite 1"
    by (auto simp add: AdaptiveKelly_init_def map_of_RISK_PROFILES)
  then show ?thesis
  proof cases
    case conservative
    from calculate_le_twice_multiplier [OF assms(1-4) conservative(2)] is_double_half r
    have "f_le r (Finite (1 / 2))" by simp
    then have "f_le r (Finite 1)" and "f_le r (Finite 2)"
      by (rule f_le_Finite_trans, simp)+
    with r lo pos show ?thesis by blast
  next
    case moderate
    from calculate_le_twice_multiplier [OF assms(1-4) moderate(2)] is_double_one r
    have one: "f_le r (Finite 1)" by simp
    then have "f_le r (Finite 2)" by (rule f_le_Finite_trans) simp
    with r lo pos one show ?thesis by blast
  next
    case aggressive
    from calculate_le_twice_multiplier [OF assms(1-4) aggressive(2)] is_double_two r
    have two: "f_le r (Finite 2)" by simp
    have "f_le r (Finite 1)" if ex: "exact_ops p b 1"
    proof -
      from calculate_exact [OF bnz ex aggressive(2)] r
      have req: "r = py_max lit_0_01 (Finite (spec_kelly_fraction p b * 1))" by simp
      from spec_kelly_fraction_le_one [OF assms(3,4,2)]
      have "spec_kelly_fraction p b * 1 \<le> 1" by simp
      then show ?thesis unfolding req py_max_floor_Finite by simp
    qed
    with aggressive(1) r lo pos two show ?thesis by blast
  qed
qed

text \<open>
  Claim C1, amended: the theorem at \<open>p = 0.5\<close>, \<open>b = 2\<close> with the profile ``aggressive'',
  where no operation rounds, and at \<open>p = 1.0\<close>, \<open>b = 2\<^sup>-\<^sup>5\<^sup>3 (1 + 2\<^sup>-\<^sup>5\<^sup>2)\<close> with the profile
  ``moderate''.
\<close>

theorem calculate_range_witness:
  "is_double 2 \<and> (0::rat) < 2 \<and> (0::rat) \<le> 1 / 2 \<and> (1 / 2 :: rat) \<le> 1 \<and>
   ''aggressive'' \<in> {''conservative'', ''moderate'', ''aggressive''} \<and>
   exact_ops (1 / 2) 2 1 \<and>
   (\<exists>r. calculate (AdaptiveKelly_init ''aggressive'') (Finite (1 / 2)) (Finite 2) = Inr r \<and>
        f_le lit_0_01 r \<and> f_gt r (Finite 0) \<and> f_le r (Finite 2) \<and> f_le r (Finite 1)) \<and>
   is_double (4503599627370497 / 40564819207303340847894502572032) \<and>
   ''moderate'' \<in> {''conservative'', ''moderate'', ''aggressive''} \<and>
   ''moderate'' \<noteq> ''aggressive'' \<and>
   (\<exists>r. calculate (AdaptiveKelly_init ''moderate'') (Finite 1)
          (Finite (4503599627370497 / 40564819207303340847894502572032)) = Inr r \<and>
        f_le lit_0_01 r \<and> f_gt r (Finite 0) \<and> f_le r (Finite 2) \<and> f_le r (Finite 1))"
proof -
  have h: "(0::rat) < 2" "(0::rat) \<le> 1 / 2" "(1 / 2 :: rat) \<le> 1"
    "''aggressive'' \<in> {''conservative'', ''moderate'', ''aggressive''}"
    by simp_all
  from calculate_range [OF is_double_two h] exact_ops_half_two
  have a: "\<exists>r. calculate (AdaptiveKelly_init ''aggressive'') (Finite (1 / 2)) (Finite 2) = Inr r \<and>
        f_le lit_0_01 r \<and> f_gt r (Finite 0) \<and> f_le r (Finite 2) \<and> f_le r (Finite 1)"
    by blast
  have g: "(0::rat) < 4503599627370497 / 40564819207303340847894502572032"
    "(0::rat) \<le> 1" "(1::rat) \<le> 1"
    "''moderate'' \<in> {''conservative'', ''moderate'', ''aggressive''}"
    by simp_all
  have ne: "''moderate'' \<noteq> ''aggressive''" by simp
  from calculate_range [OF is_double_tiny_ratio g] ne
  have b: "\<exists>r. calculate (AdaptiveKelly_init ''moderate'') (Finite 1)
          (Finite (4503599627370497 / 40564819207303340847894502572032)) = Inr r \<and>
        f_le lit_0_01 r \<and> f_gt r (Finite 0) \<and> f_le r (Finite 2) \<and> f_le r (Finite 1)"
    by blast
  from is_double_two h exact_ops_half_two a is_double_tiny_ratio g(4) ne b
  show ?thesis by blast
qed

subsection \<open>C2: invalid inputs\<close>

text \<open>
  Claim C2, as stated, fails.  The specification says that a win/loss ratio \<open>b \<le> 0\<close> or
  a win probability outside \<open>[0, 1]\<close> makes the operation fail with an invalid-input
  error.  The code checks nothing: with the profile ``moderate'', \<open>p = 0.5\<close> and
  \<open>b = -1\<close> give the result \<open>0.5\<close>, and \<open>p = 2\<close> and \<open>b = 1\<close> give \<open>1.5\<close>.
\<close>

theorem calculate_accepts_invalid_input:
  "calculate (AdaptiveKelly_init ''moderate'') (Finite (1 / 2)) (Finite (- 1)) =
     Inr (Finite (1 / 2)) \<and>
   calculate (AdaptiveKelly_init ''moderate'') (Finite 2) (Finite 1) = Inr (Finite (3 / 2))"
  using calculate_at_negative_ratio calculate_at_probability_two by simp

text \<open>
  Claim C2, amended.  \<^verbatim>\<open>calculate\<close> validates nothing.  Its only failure is the
  \<^verbatim>\<open>ZeroDivisionError\<close> of the division, raised exactly when the win/loss ratio is
  zero; for every other input, a negative ratio or a probability outside \<open>[0, 1]\<close>
  included, it returns a value that is at least the float \<open>0.01\<close>.
\<close>

theorem calculate_fails_iff_zero_ratio:
  "(calculate self p b = Inl e) = (e = ZeroDivisionError \<and> b = Finite 0) \<and>
   (\<exists>r. calculate self p b = Inr r \<and> f_le lit_0_01 r) = (b \<noteq> Finite 0)"
proof (cases "b = Finite 0")
  case True
  then have "calculate self p b = Inl ZeroDivisionError"
    by (simp add: calculate_def raw_kelly_zero)
  with True show ?thesis by auto
next
  case False
  from calculate_floor [OF False]
  obtain r where "calculate self p b = Inr r" "f_le lit_0_01 r" by blast
  with False show ?thesis by auto
qed

subsection \<open>C3: the Kelly fraction\<close>




subsection \<open>C4: the scenario \<open>p = 0.6\<close>, \<open>b = 2\<close>, profile ``aggressive''\<close>

text \<open>
  Claim C4, as stated, fails.  The specification says that the scenario returns the
  fraction \<open>0.40\<close> exactly.  The float \<open>0.6\<close> is slightly below \<open>3/5\<close>, its product with
  \<open>3\<close> lies halfway between two floats and rounds to the even one,
  \<open>1.7999999999999998\<close>, and the result is neither the float \<open>0.4\<close> nor the rational
  \<open>2/5\<close>.
\<close>

theorem calculate_scenario_not_0_40:
  "calculate (AdaptiveKelly_init ''aggressive'') (round_double (3 / 5)) (Finite 2) \<noteq>
     Inr (round_double (2 / 5)) \<and>
   calculate (AdaptiveKelly_init ''aggressive'') (round_double (3 / 5)) (Finite 2) \<noteq>
     Inr (Finite (2 / 5))"
  by (simp add: lit_0_6_eq lit_0_4_eq calculate_at_scenario)

text \<open>
  Claim C4, amended.  On the floats \<open>0.6\<close> and \<open>2\<close> with the profile ``aggressive'',
  \<^verbatim>\<open>calculate\<close> returns \<open>900719925474099 / 2\<^sup>5\<^sup>1\<close> (printed 0.3999999999999999), which is
  below \<open>2/5\<close> by \<open>1 / (5 * 2\<^sup>5\<^sup>1)\<close>.  The operation takes no equity and computes no
  notional.
\<close>

theorem calculate_scenario:
  "calculate (AdaptiveKelly_init ''aggressive'') (round_double (3 / 5)) (Finite 2) =
     Inr (Finite (900719925474099 / 2251799813685248)) \<and>
   (2 / 5 - 900719925474099 / 2251799813685248 :: rat) = 1 / (5 * 2 ^ 51)"
  by (simp add: lit_0_6_eq calculate_at_scenario)

subsection \<open>C6: the FIX admin handler\<close>

text \<open>
  Claim C6 against the code.  The specification says that for a logon message the
  handler sets the fields 553 (user name) and 554 (encrypted password).  The handler
  attempts both and completes neither: on the logon message the first statement raises
  \<^verbatim>\<open>NameError\<close>, because the file never imports \<^verbatim>\<open>os\<close>, and the message is left as it
  was, with neither field set.  Were \<^verbatim>\<open>os\<close> bound, the handler would set field 553 and
  then raise \<^verbatim>\<open>AttributeError\<close>, because the class defines no \<^verbatim>\<open>_encrypt\<close>: field
  554 is never set.
\<close>

theorem toAdmin_logon_fails:
  "header logon_msg 35 = Some ''A'' \<and>
   toAdmin example_env logon_msg = (Some NameError, logon_msg) \<and>
   body (snd (toAdmin example_env logon_msg)) 553 = None \<and>
   body (snd (toAdmin example_env logon_msg)) 554 = None \<and>
   toAdmin_in (''os'' # module_names) example_env logon_msg =
     (Some AttributeError, logon_msg\<lparr>body := (body logon_msg)(553 \<mapsto> ''alice'')\<rparr>)"
  by (simp add: toAdmin_eq toAdmin_in_def getField_def name_lookup_def getattr_encrypt
      setField_def logon_msg_def example_env_def)

subsection \<open>C7: connecting the terminal bridge\<close>

text \<open>
  Claim C7.  The constructor of the bridge raises \<^verbatim>\<open>ConnectionError\<close> exactly when
  the initialization of the terminal reports failure, and returns the bridge object
  exactly when it reports success.
\<close>

theorem MT5Bridge_init_fails_iff:
  "(MT5Bridge_init initialized = Inl ConnectionError) = (\<not> initialized) \<and>
   (MT5Bridge_init initialized = Inr MT5Bridge) = initialized"
  by (simp add: MT5Bridge_init_def)

subsection \<open>C8: deadline of a submission\<close>




subsection \<open>C9: unknown risk profiles\<close>

text \<open>
  Claim C9.  The constructor of the sizer never fails, and a profile string that is not
  one of the three presets gives the multiplier 0.5, the same object as the profile
  ``moderate''.
\<close>

theorem AdaptiveKelly_init_unknown_profile:
  "profile \<notin> {''conservative'', ''moderate'', ''aggressive''} \<Longrightarrow>
     multiplier (AdaptiveKelly_init profile) = Finite (1 / 2) \<and>
     AdaptiveKelly_init profile = AdaptiveKelly_init ''moderate''"
  by (simp add: AdaptiveKelly_init_def map_of_RISK_PROFILES)

theorem AdaptiveKelly_init_unknown_profile_witness:
  "''reckless'' \<notin> {''conservative'', ''moderate'', ''aggressive''} \<and>
   multiplier (AdaptiveKelly_init ''reckless'') = Finite (1 / 2) \<and>
   AdaptiveKelly_init ''reckless'' = AdaptiveKelly_init ''moderate''"
proof -
  have h: "''reckless'' \<notin> {''conservative'', ''moderate'', ''aggressive''}"
    by simp
  show ?thesis
    using h AdaptiveKelly_init_unknown_profile [OF h] by blast
qed

subsection \<open>C10: the handler of the main loop\<close>

text \<open>
  Claim C10, as stated, fails.  The specification says that for every exception raised
  inside the loop the handler runs and itself raises \<^verbatim>\<open>AttributeError\<close>.  The clause
  \<^verbatim>\<open>except Exception\<close> does not catch \<^verbatim>\<open>asyncio.CancelledError\<close>, which is what
  \<^verbatim>\<open>await asyncio.sleep(0.1)\<close> raises when the task is cancelled: that exception leaves
  \<^verbatim>\<open>run\<close> as it is, and the handler is not entered.
\<close>

theorem run_propagates_CancelledError:
  "run (\<lambda>i. Some CancelledError) = Some (CancelledError, [TaskCreated, InitiatorStarted])"
  unfolding run_def by (simp add: run_loop_raise)

text \<open>
  Claim C10, amended.  No run of the loop performs an emergency shutdown.  When the
  \<open>n\<close>-th execution of the \<^verbatim>\<open>try\<close> block is the first to raise, \<^verbatim>\<open>run\<close> ends there:
  for an exception derived from \<^verbatim>\<open>Exception\<close> the handler looks up
  \<^verbatim>\<open>self._emergency_shutdown\<close>, which the class does not define, and
  \<^verbatim>\<open>AttributeError\<close> propagates; any other exception propagates itself.
\<close>

theorem run_handler_fails:
  "(\<forall>x. run try_body = Some (err, trace) \<longrightarrow> EmergencyShutdown x \<notin> set trace) \<and>
   ((\<forall>j<n. try_body j = None) \<and> try_body n = Some e \<longrightarrow>
      run try_body =
        Some (if is_Exception e then AttributeError else e,
              [TaskCreated, InitiatorStarted] @ replicate n Slept))"
proof (intro conjI allI impI)
  fix x assume "run try_body = Some (err, trace)"
  then show "EmergencyShutdown x \<notin> set trace" by (rule run_no_shutdown)
next
  assume a: "(\<forall>j<n. try_body j = None) \<and> try_body n = Some e"
  then have "\<forall>j<n. try_body (0 + j) = None" and "try_body (0 + n) = Some e" by simp_all
  then show "run try_body =
        Some (if is_Exception e then AttributeError else e,
              [TaskCreated, InitiatorStarted] @ replicate n Slept)"
    unfolding run_def by (rule run_loop_first_raise)
qed

text \<open>
  Claim C10, amended: the theorem for a loop whose third iteration raises
  \<^verbatim>\<open>ZeroDivisionError\<close>.
\<close>

theorem run_handler_fails_witness:
  "run (\<lambda>i. if i = 2 then Some ZeroDivisionError else None) =
     Some (AttributeError, [TaskCreated, InitiatorStarted, Slept, Slept]) \<and>
   EmergencyShutdown ZeroDivisionError \<notin> set [TaskCreated, InitiatorStarted, Slept, Slept]"
proof -
  let ?b = "\<lambda>i::nat. if i = 2 then Some ZeroDivisionError else None"
  have h: "(\<forall>j<2. ?b j = None) \<and> ?b 2 = Some ZeroDivisionError" by simp
  from run_handler_fails [of ?b _ _ 2 ZeroDivisionError] h
  have r: "run ?b = Some (if is_Exception ZeroDivisionError then AttributeError else ZeroDivisionError,
      [TaskCreated, InitiatorStarted] @ replicate 2 Slept)" by blast
  then have r': "run ?b = Some (AttributeError, [TaskCreated, InitiatorStarted, Slept, Slept])"
    by (simp add: numeral_2_eq_2)
  from run_handler_fails [of ?b AttributeError "[TaskCreated, InitiatorStarted, Slept, Slept]"] r'
  have "EmergencyShutdown ZeroDivisionError \<notin> set [TaskCreated, InitiatorStarted, Slept, Slept]"
    by blast
  with r' show ?thesis by blast
qed

end
